theory Spec2Isabelle
  imports Main "HOL-Library.Word"
begin

unbundle bit_operations_syntax

section \<open>Values, exceptions and outcomes\<close>

text \<open>
  A Node \<open>Buffer\<close> is a list of bytes. A JavaScript number that holds an integer is an
  \<open>int\<close> (the code only ever builds integers below \<open>2^53\<close>, where double arithmetic
  is exact). A JavaScript string is represented by the list of its UTF-8 code units, so
  that \<open>Buffer.from(s, 'utf8')\<close> and \<open>buf.toString('utf8')\<close> are the identity on the
  representation (well-formed strings only).
\<close>

type_synonym byte = "8 word"
type_synonym buffer = "byte list"

datatype error =
    AssertionError string
  | EncodingError string
  | TypeError string
  | Error string

text \<open>
  The outcome of a call: it returns, it throws, or the recursion bound of the model ran
  out (\<open>OutOfFuel\<close>, only possible below \<open>readField\<close>, whose group loop need not end).
\<close>

datatype 'a outcome = Return 'a | Throw error | OutOfFuel

definition bind_o :: "'a outcome \<Rightarrow> ('a \<Rightarrow> 'b outcome) \<Rightarrow> 'b outcome" where
  "bind_o m f = (case m of Return x \<Rightarrow> f x | Throw e \<Rightarrow> Throw e | OutOfFuel \<Rightarrow> OutOfFuel)"

text \<open>
  A reader call runs on the immutable \<open>data\<close> from a cursor \<open>offset\<close> and yields its
  outcome together with the cursor it leaves behind; an exception leaves the cursor
  where the throwing statement found it.
\<close>

definition bind_r ::
  "'a outcome \<times> nat \<Rightarrow> ('a \<Rightarrow> nat \<Rightarrow> 'b outcome \<times> nat) \<Rightarrow> 'b outcome \<times> nat" where
  "bind_r m f =
     (case m of
        (Return x, off) \<Rightarrow> f x off
      | (Throw e, off) \<Rightarrow> (Throw e, off)
      | (OutOfFuel, off) \<Rightarrow> (OutOfFuel, off))"

section \<open>protoreader.js: varints\<close>

datatype Varint = Varint (vsize: nat) (vvalue: int)

text \<open>
  The summand one group contributes, with the three branches of the source's
  \<open>switch (size)\<close>: a 32-bit shift for the first four groups, a product with
  \<open>1 << 28\<close> for the fifth, a product with \<open>Math.pow(2, 7 * size)\<close> after that.
\<close>

definition group_term :: "nat \<Rightarrow> byte \<Rightarrow> int" where
  "group_term sz ch =
     (if sz \<le> 3 then sint (push_bit (7 * sz) (ucast (ch AND 0x7f) :: 32 word))
      else if sz = 4 then uint (ch AND 0x7f) * sint (push_bit 28 (1 :: 32 word))
      else uint (ch AND 0x7f) * 2 ^ (7 * sz))"

text \<open>
  The body of \<open>while (ch & 0x80)\<close> in \<open>_readVarint\<close>, entered with the loop condition
  true: \<open>num\<close> and \<open>sz\<close> (the source's \<open>size\<close>) are the loop's variables, \<open>off\<close> the local cursor.
\<close>

function readVarint_loop :: "buffer \<Rightarrow> nat \<Rightarrow> int \<Rightarrow> nat \<Rightarrow> Varint outcome" where
  "readVarint_loop data off num sz =
     (if off \<ge> length data then Return (Varint sz 0)
      else
        let ch = data ! off;
            num' = num + group_term sz ch
        in if \<not> sz + 1 < 7 then Throw (AssertionError ''Number exceeds 2^53-1.'')
           else if ch AND 0x80 \<noteq> 0 then readVarint_loop data (off + 1) num' (sz + 1)
           else Return (Varint (sz + 1) num'))"
  by pat_completeness auto
termination
  by (relation "measure (\<lambda>(data, off, num, sz). 7 - sz)") auto

declare readVarint_loop.simps [simp del]

definition p_readVarint :: "buffer \<Rightarrow> nat \<Rightarrow> Varint outcome" where
  "p_readVarint data off = readVarint_loop data off 0 0"

text \<open>\<open>ProtoReader.readVarint\<close>: the cursor moves only when \<open>_readVarint\<close> returns.\<close>

definition readVarint :: "buffer \<Rightarrow> nat \<Rightarrow> int outcome \<times> nat" where
  "readVarint data offset =
     (case p_readVarint data offset of
        Return v \<Rightarrow> (Return (vvalue v), offset + vsize v)
      | Throw e \<Rightarrow> (Throw e, offset)
      | OutOfFuel \<Rightarrow> (OutOfFuel, offset))"

section \<open>bufio: the \<open>BufferReader\<close> methods the reader inherits\<close>

text \<open>
  \<open>ProtoReader\<close> extends the \<open>BufferReader\<close> of the external package \<open>bufio\<close>. The
  methods it uses check their bounds and throw on a read past the end of the data.
\<close>

definition out_of_bounds :: error where
  "out_of_bounds = EncodingError ''Out of bounds read''"

definition left :: "buffer \<Rightarrow> nat \<Rightarrow> int outcome \<times> nat" where
  "left data offset =
     (if offset > length data then (Throw out_of_bounds, offset)
      else (Return (int (length data) - int offset), offset))"

definition seek :: "buffer \<Rightarrow> nat \<Rightarrow> int \<Rightarrow> unit outcome \<times> nat" where
  "seek data offset off =
     (if int offset + off < 0 \<or> int offset + off > int (length data)
      then (Throw out_of_bounds, offset)
      else (Return (), nat (int offset + off)))"

definition readBytes :: "buffer \<Rightarrow> nat \<Rightarrow> int \<Rightarrow> buffer outcome \<times> nat" where
  "readBytes data offset sz =
     (if sz < 0 \<or> sz \<ge> 2 ^ 32 then (Throw (TypeError ''size must be a(n) integer''), offset)
      else if int offset + sz > int (length data) then (Throw out_of_bounds, offset)
      else (Return (take (nat sz) (drop offset data)), offset + nat sz))"

text \<open>Little-endian unsigned value of a run of bytes.\<close>

fun le_value :: "buffer \<Rightarrow> int" where
  "le_value [] = 0"
| "le_value (b # bs) = uint b + 256 * le_value bs"

definition readU32 :: "buffer \<Rightarrow> nat \<Rightarrow> int outcome \<times> nat" where
  "readU32 data offset =
     (if offset + 4 > length data then (Throw out_of_bounds, offset)
      else (Return (le_value (take 4 (drop offset data))), offset + 4))"

definition readU64 :: "buffer \<Rightarrow> nat \<Rightarrow> int outcome \<times> nat" where
  "readU64 data offset =
     (if offset + 8 > length data then (Throw out_of_bounds, offset)
      else if le_value (take 8 (drop offset data)) \<ge> 2 ^ 53
      then (Throw (TypeError ''off must be a(n) safe integer''), offset)
      else (Return (le_value (take 8 (drop offset data))), offset + 8))"

text \<open>\<open>readVarBytes\<close> reads its length with the overriding \<open>readVarint\<close>.\<close>

definition readVarBytes :: "buffer \<Rightarrow> nat \<Rightarrow> buffer outcome \<times> nat" where
  "readVarBytes data offset =
     bind_r (readVarint data offset) (\<lambda>n off. readBytes data off n)"

section \<open>protoreader.js: fields\<close>

definition VARINT :: int where "VARINT = 0"
definition FIXED64 :: int where "FIXED64 = 1"
definition DELIMITED :: int where "DELIMITED = 2"
definition START_GROUP :: int where "START_GROUP = 3"
definition END_GROUP :: int where "END_GROUP = 4"
definition FIXED32 :: int where "FIXED32 = 5"

datatype Field =
  Field (ftag: int) (ftype: int) (fsize: int) (fvalue: int)
        (fdata: "buffer option") (fgroup: "Field list option")

text \<open>
  The constructor of \<open>Field\<close>: \<open>header >>> 3\<close> converts to an unsigned 32-bit integer
  first, \<open>header & 7\<close> keeps the three low bits.
\<close>

definition newField :: "int \<Rightarrow> Field" where
  "newField header = Field ((header mod 2 ^ 32) div 8) (header mod 8) 0 0 None None"

definition set_size :: "Field \<Rightarrow> int \<Rightarrow> Field" where
  "set_size f n = Field (ftag f) (ftype f) n (fvalue f) (fdata f) (fgroup f)"

definition set_value :: "Field \<Rightarrow> int \<Rightarrow> Field" where
  "set_value f v = Field (ftag f) (ftype f) (fsize f) v (fdata f) (fgroup f)"

definition set_data :: "Field \<Rightarrow> buffer \<Rightarrow> Field" where
  "set_data f d = Field (ftag f) (ftype f) (fsize f) (fvalue f) (Some d) (fgroup f)"

definition set_group :: "Field \<Rightarrow> Field list \<Rightarrow> Field" where
  "set_group f g = Field (ftag f) (ftype f) (fsize f) (fvalue f) (fdata f) (Some g)"

text \<open>
  \<open>readField(tag, opt)\<close>: \<open>tag\<close> is \<open>None\<close> when the argument is left out, \<open>opt\<close> is the
  truthiness of the second argument. The result is \<open>None\<close> for \<open>null\<close>. The first
  argument bounds the depth of the recursion through \<open>readGroup\<close>, the \<open>for (;;)\<close> loop
  of the \<open>START_GROUP\<close> case, which the source leaves only by an exception or when an
  inner field has type \<open>END_GROUP\<close>.
\<close>

fun readField :: "nat \<Rightarrow> buffer \<Rightarrow> nat \<Rightarrow> int option \<Rightarrow> bool \<Rightarrow> Field option outcome \<times> nat"
  and readGroup :: "nat \<Rightarrow> buffer \<Rightarrow> nat \<Rightarrow> Field list \<Rightarrow> Field list outcome \<times> nat"
where
  "readField 0 data offset tag opt = (OutOfFuel, offset)"
| "readField (Suc fuel) data offset tag opt =
     bind_r (readVarint data offset) (\<lambda>header off1.
       let field = newField header in
       if tag \<noteq> None \<and> Some (ftag field) \<noteq> tag then
         (if \<not> opt then (Throw (AssertionError ''Non-optional field not present.''), off1)
          else (Return None, offset))
       else
         bind_r
           (if ftype field = VARINT then
              bind_r (readVarint data off1) (\<lambda>v off2. (Return (set_value field v), off2))
            else if ftype field = FIXED64 then
              bind_r (readU64 data off1) (\<lambda>v off2. (Return (set_value field v), off2))
            else if ftype field = DELIMITED then
              bind_r (readVarBytes data off1) (\<lambda>d off2. (Return (set_data field d), off2))
            else if ftype field = START_GROUP then
              bind_r (readGroup fuel data off1 []) (\<lambda>g off2. (Return (set_group field g), off2))
            else if ftype field = END_GROUP then
              (Throw (AssertionError ''Unexpected end group.''), off1)
            else if ftype field = FIXED32 then
              bind_r (readU32 data off1) (\<lambda>v off2. (Return (set_value field v), off2))
            else (Throw (AssertionError ''Bad wire type.''), off1))
           (\<lambda>field off2. (Return (Some (set_size field (int off2 - int offset))), off2)))"
| "readGroup 0 data offset grp = (OutOfFuel, offset)"
| "readGroup (Suc fuel) data offset grp =
     bind_r (readField fuel data offset None False) (\<lambda>inner off1.
       case inner of
         None \<Rightarrow> (Throw (TypeError ''Cannot read properties of null''), off1)
       | Some i \<Rightarrow>
           if ftype i = END_GROUP then (Return grp, off1)
           else readGroup fuel data off1 (grp @ [i]))"

text \<open>The \<open>switch (field.type)\<close> of \<open>readField\<close>, named so that proofs can refer to it.\<close>

definition payload :: "nat \<Rightarrow> buffer \<Rightarrow> nat \<Rightarrow> Field \<Rightarrow> Field outcome \<times> nat" where
  "payload fuel data off1 field =
     (if ftype field = VARINT then
        bind_r (readVarint data off1) (\<lambda>v off2. (Return (set_value field v), off2))
      else if ftype field = FIXED64 then
        bind_r (readU64 data off1) (\<lambda>v off2. (Return (set_value field v), off2))
      else if ftype field = DELIMITED then
        bind_r (readVarBytes data off1) (\<lambda>d off2. (Return (set_data field d), off2))
      else if ftype field = START_GROUP then
        bind_r (readGroup fuel data off1 []) (\<lambda>g off2. (Return (set_group field g), off2))
      else if ftype field = END_GROUP then
        (Throw (AssertionError ''Unexpected end group.''), off1)
      else if ftype field = FIXED32 then
        bind_r (readU32 data off1) (\<lambda>v off2. (Return (set_value field v), off2))
      else (Throw (AssertionError ''Bad wire type.''), off1))"

text \<open>The typed accessors; \<open>assert\<close> without a message throws \<open>Assertion failed.\<close>\<close>

definition assertion_failed :: error where
  "assertion_failed = AssertionError ''Assertion failed.''"

definition readFieldU64 :: "nat \<Rightarrow> buffer \<Rightarrow> nat \<Rightarrow> int \<Rightarrow> bool \<Rightarrow> int outcome \<times> nat" where
  "readFieldU64 fuel data offset tag opt =
     bind_r (readField fuel data offset (Some tag) opt) (\<lambda>field off.
       case field of
         None \<Rightarrow> (Return (- 1), off)
       | Some f \<Rightarrow>
           if \<not> (ftype f = VARINT \<or> ftype f = FIXED64) then (Throw assertion_failed, off)
           else (Return (fvalue f), off))"

definition readFieldU32 :: "nat \<Rightarrow> buffer \<Rightarrow> nat \<Rightarrow> int \<Rightarrow> bool \<Rightarrow> int outcome \<times> nat" where
  "readFieldU32 fuel data offset tag opt =
     bind_r (readField fuel data offset (Some tag) opt) (\<lambda>field off.
       case field of
         None \<Rightarrow> (Return (- 1), off)
       | Some f \<Rightarrow>
           if \<not> (ftype f = VARINT \<or> ftype f = FIXED32) then (Throw assertion_failed, off)
           else (Return (fvalue f), off))"

definition readFieldBytes ::
  "nat \<Rightarrow> buffer \<Rightarrow> nat \<Rightarrow> int \<Rightarrow> bool \<Rightarrow> buffer option outcome \<times> nat" where
  "readFieldBytes fuel data offset tag opt =
     bind_r (readField fuel data offset (Some tag) opt) (\<lambda>field off.
       case field of
         None \<Rightarrow> (Return None, off)
       | Some f \<Rightarrow>
           (case fdata f of
              None \<Rightarrow> (Throw assertion_failed, off)
            | Some d \<Rightarrow> (Return (Some d), off)))"

definition toString_utf8 :: "buffer \<Rightarrow> string" where
  "toString_utf8 d = map (\<lambda>b. char_of (unat b)) d"

definition from_utf8 :: "string \<Rightarrow> buffer" where
  "from_utf8 s = map (\<lambda>c. of_nat (of_char c)) s"

definition readFieldString ::
  "nat \<Rightarrow> buffer \<Rightarrow> nat \<Rightarrow> int \<Rightarrow> bool \<Rightarrow> string option outcome \<times> nat" where
  "readFieldString fuel data offset tag opt =
     bind_r (readField fuel data offset (Some tag) opt) (\<lambda>field off.
       case field of
         None \<Rightarrow> (Return None, off)
       | Some f \<Rightarrow>
           (case fdata f of
              None \<Rightarrow> (Throw assertion_failed, off)
            | Some d \<Rightarrow> (Return (Some (toString_utf8 d)), off)))"

definition nextTag :: "nat \<Rightarrow> buffer \<Rightarrow> nat \<Rightarrow> int outcome \<times> nat" where
  "nextTag fuel data offset =
     bind_r (left data offset) (\<lambda>l off0.
       if l = 0 then (Return (- 1), off0)
       else
         bind_r (readField fuel data off0 None False) (\<lambda>field off1.
           case field of
             None \<Rightarrow> (Throw (TypeError ''Cannot read properties of null''), off1)
           | Some f \<Rightarrow>
               bind_r (seek data off1 (- fsize f)) (\<lambda>u off2. (Return (ftag f), off2))))"

section \<open>protowriter.js\<close>

text \<open>
  Modelled from the spec: \<open>ProtoWriter\<close> (\<open>lib/utils/protowriter.js\<close> is missing from
  the sources). The spec's section 4.2 gives \<open>writeVarint\<close> (base-128 groups, least
  significant first, continuation bit on every group but the last), \<open>writeFieldBytes\<close>
  (header, varint length, raw bytes), \<open>writeFieldString\<close> (UTF-8 encode, then
  \<open>writeFieldBytes\<close>), \<open>writeFieldU32\<close> and \<open>writeFieldU64\<close> (header with the varint
  wire type, then \<open>writeVarint\<close>) and \<open>render\<close>; a header is \<open>tag << 3 | wire_type\<close>;
  a value outside the range of nine groups is refused. The writer's state is the buffer
  written so far.
\<close>

function encode_groups :: "nat \<Rightarrow> buffer" where
  "encode_groups n =
     (if n < 128 then [of_nat n]
      else (of_nat (n mod 128) OR 0x80) # encode_groups (n div 128))"
  by pat_completeness auto
termination
  by (relation "measure (\<lambda>n. n)") auto

declare encode_groups.simps [simp del]

definition writeVarint :: "int \<Rightarrow> buffer \<Rightarrow> buffer outcome" where
  "writeVarint v bw =
     (if v < 0 \<or> v \<ge> 2 ^ 63 then Throw (EncodingError ''MalformedInput'')
      else Return (bw @ encode_groups (nat v)))"

definition writeFieldBytes :: "int \<Rightarrow> buffer \<Rightarrow> buffer \<Rightarrow> buffer outcome" where
  "writeFieldBytes tag data bw =
     bind_o (writeVarint (tag * 8 + DELIMITED) bw) (\<lambda>bw.
     bind_o (writeVarint (int (length data)) bw) (\<lambda>bw.
     Return (bw @ data)))"

definition writeFieldString :: "int \<Rightarrow> string \<Rightarrow> buffer \<Rightarrow> buffer outcome" where
  "writeFieldString tag str bw = writeFieldBytes tag (from_utf8 str) bw"

text \<open>
  \<open>PaymentDetails.toRaw\<close> hands \<open>writeFieldString\<close> a \<open>Buffer\<close>; UTF-8 encoding
  a \<open>Buffer\<close> copies its bytes.
\<close>

definition writeFieldString_buf :: "int \<Rightarrow> buffer \<Rightarrow> buffer \<Rightarrow> buffer outcome" where
  "writeFieldString_buf tag data bw = writeFieldBytes tag data bw"

definition writeFieldU32 :: "int \<Rightarrow> int \<Rightarrow> buffer \<Rightarrow> buffer outcome" where
  "writeFieldU32 tag v bw =
     bind_o (writeVarint (tag * 8 + VARINT) bw) (\<lambda>bw. writeVarint v bw)"

definition writeFieldU64 :: "int \<Rightarrow> int \<Rightarrow> buffer \<Rightarrow> buffer outcome" where
  "writeFieldU64 tag v bw =
     bind_o (writeVarint (tag * 8 + VARINT) bw) (\<lambda>bw. writeVarint v bw)"

definition render :: "buffer \<Rightarrow> buffer" where
  "render bw = bw"

section \<open>paymentdetails.js\<close>

text \<open>
  An output is a plain object \<open>{value, script}\<close>; decoding leaves \<open>script\<close> \<open>null\<close>
  when the field is missing.
\<close>

record Output =
  ovalue :: int
  script :: "buffer option"

record PaymentDetails =
  network :: "string option"
  outputs :: "Output list"
  time :: int
  expires :: int
  memo :: "string option"
  paymentUrl :: "string option"
  merchantData :: "buffer option"

text \<open>The constructor without options; \<open>now\<close> is \<open>Date.now()\<close>, in milliseconds.\<close>

definition new_PaymentDetails :: "int \<Rightarrow> PaymentDetails" where
  "new_PaymentDetails now =
     \<lparr>network = None, outputs = [], time = now div 1000, expires = - 1, memo = None,
      paymentUrl = None, merchantData = None\<rparr>"

definition isExpired :: "int \<Rightarrow> PaymentDetails \<Rightarrow> bool" where
  "isExpired now d = (if expires d = - 1 then False else now div 1000 > expires d)"

text \<open>
  \<open>getData(enc)\<close>, shared by \<open>PaymentDetails\<close> and \<open>Payment\<close>: it reads only
  \<open>this.merchantData\<close>. \<open>JSON.parse\<close> and \<open>Buffer.toString(enc)\<close> for the other
  encodings are parameters: each returns a value or throws.
\<close>

datatype 'j data_value = DNull | DBuffer buffer | DJson 'j | DString string

definition getData ::
  "(string \<Rightarrow> 'j outcome) \<Rightarrow> (string \<Rightarrow> buffer \<Rightarrow> string outcome) \<Rightarrow>
   buffer option \<Rightarrow> string option \<Rightarrow> 'j data_value outcome" where
  "getData json_parse to_string this_merchantData enc =
     (case this_merchantData of
        None \<Rightarrow> Return DNull
      | Some data \<Rightarrow>
          if enc = None \<or> enc = Some [] then Return (DBuffer data)
          else if enc = Some ''json'' then
            (case json_parse (toString_utf8 data) of
               Return v \<Rightarrow> Return (DJson v)
             | Throw e \<Rightarrow> Return DNull
             | OutOfFuel \<Rightarrow> OutOfFuel)
          else bind_o (to_string (the enc) data) (\<lambda>str. Return (DString str)))"

definition PaymentDetails_getData ::
  "(string \<Rightarrow> 'j outcome) \<Rightarrow> (string \<Rightarrow> buffer \<Rightarrow> string outcome) \<Rightarrow>
   PaymentDetails \<Rightarrow> string option \<Rightarrow> 'j data_value outcome" where
  "PaymentDetails_getData json_parse to_string d enc =
     getData json_parse to_string (merchantData d) enc"

text \<open>The body of \<open>for (const output of this.outputs)\<close>, writing into \<open>bw\<close> under \<open>tag\<close>.\<close>

definition write_output :: "int \<Rightarrow> Output \<Rightarrow> buffer \<Rightarrow> buffer outcome" where
  "write_output tag output bw =
     bind_o (writeFieldU64 1 (ovalue output) []) (\<lambda>op.
     bind_o (case script output of
               None \<Rightarrow> Throw (TypeError ''Cannot read properties of null'')
             | Some s \<Rightarrow> writeFieldBytes 2 s op) (\<lambda>op.
     writeFieldBytes tag (render op) bw))"

fun write_outputs :: "int \<Rightarrow> Output list \<Rightarrow> buffer \<Rightarrow> buffer outcome" where
  "write_outputs tag [] bw = Return bw"
| "write_outputs tag (output # rest) bw =
     bind_o (write_output tag output bw) (\<lambda>bw. write_outputs tag rest bw)"

definition PaymentDetails_toRaw :: "PaymentDetails \<Rightarrow> buffer outcome" where
  "PaymentDetails_toRaw d =
     bind_o (case network d of None \<Rightarrow> Return [] | Some n \<Rightarrow> writeFieldString 1 n []) (\<lambda>bw.
     bind_o (write_outputs 2 (outputs d) bw) (\<lambda>bw.
     bind_o (writeFieldU64 3 (time d) bw) (\<lambda>bw.
     bind_o (if expires d \<noteq> - 1 then writeFieldU64 4 (expires d) bw else Return bw) (\<lambda>bw.
     bind_o (case memo d of None \<Rightarrow> Return bw | Some m \<Rightarrow> writeFieldString 5 m bw) (\<lambda>bw.
     bind_o (case paymentUrl d of None \<Rightarrow> Return bw | Some u \<Rightarrow> writeFieldString 6 u bw) (\<lambda>bw.
     bind_o (case merchantData d of None \<Rightarrow> Return bw
             | Some m \<Rightarrow> writeFieldString_buf 7 m bw) (\<lambda>bw.
     Return (render bw))))))))"

section \<open>The cursor only moves forward\<close>

text \<open>
  The loops that read a repeated field end because every field they consume moves the
  cursor. The facts below are what their termination proofs need.
\<close>

lemma bind_r_Return:
  "bind_r m f = (Return y, off') \<Longrightarrow>
   \<exists>x off1. m = (Return x, off1) \<and> f x off1 = (Return y, off')"
  by (cases m; cases "fst m") (auto simp: bind_r_def)

lemma bind_r_cong [fundef_cong]:
  "m = m' \<Longrightarrow> (\<And>x off. m' = (Return x, off) \<Longrightarrow> f x off = f' x off) \<Longrightarrow>
   bind_r m f = bind_r m' f'"
  by (cases m'; cases "fst m'") (auto simp: bind_r_def)

lemma readVarint_loop_size:
  "readVarint_loop data off num sz = Return v \<Longrightarrow>
   sz \<le> vsize v \<and> (off < length data \<longrightarrow> sz < vsize v)"
proof (induction data off num sz rule: readVarint_loop.induct)
  case (1 data off num sz)
  show ?case
  proof (cases "length data \<le> off")
    case True
    with "1.prems" show ?thesis by (subst (asm) readVarint_loop.simps) auto
  next
    case False
    note nf = this
    show ?thesis
    proof (cases "sz + 1 < 7 \<and> data ! off AND 0x80 \<noteq> 0")
      case True
      have "readVarint_loop data (off + 1) (num + group_term sz (data ! off)) (sz + 1) = Return v"
        using "1.prems" nf True by (subst (asm) readVarint_loop.simps) (simp add: Let_def)
      then have "sz + 1 \<le> vsize v"
        using "1.IH" [OF nf refl refl] True by simp
      then show ?thesis by simp
    next
      case False
      with "1.prems" nf show ?thesis
        by (subst (asm) readVarint_loop.simps) (auto simp: Let_def split: if_splits)
    qed
  qed
qed

lemma readVarint_mono: "readVarint data off = (r, off') \<Longrightarrow> off \<le> off'"
  by (auto simp: readVarint_def split: outcome.splits)

lemma readVarint_progress:
  "readVarint data off = (Return h, off') \<Longrightarrow> off < length data \<Longrightarrow> off < off'"
  using readVarint_loop_size [of data off 0 0]
  by (auto simp: readVarint_def p_readVarint_def split: outcome.splits)

lemma readBytes_mono: "readBytes data off n = (r, off') \<Longrightarrow> off \<le> off'"
  by (auto simp: readBytes_def split: if_splits)

lemma readU32_mono: "readU32 data off = (r, off') \<Longrightarrow> off \<le> off'"
  by (auto simp: readU32_def split: if_splits)

lemma readU64_mono: "readU64 data off = (r, off') \<Longrightarrow> off \<le> off'"
  by (auto simp: readU64_def split: if_splits)

lemma readVarBytes_mono:
  assumes "readVarBytes data off = (Return d, off')"
  shows "off \<le> off'"
proof -
  obtain n off1 where a: "readVarint data off = (Return n, off1)"
    and b: "readBytes data off1 n = (Return d, off')"
    using assms by (auto simp: readVarBytes_def dest!: bind_r_Return)
  from readVarint_mono [OF a] readBytes_mono [OF b] show ?thesis by simp
qed

lemma readField_Suc:
  "readField (Suc fuel) data offset tag opt =
     bind_r (readVarint data offset) (\<lambda>header off1.
       if tag \<noteq> None \<and> Some (ftag (newField header)) \<noteq> tag then
         (if \<not> opt then (Throw (AssertionError ''Non-optional field not present.''), off1)
          else (Return None, offset))
       else
         bind_r (payload fuel data off1 (newField header))
           (\<lambda>field off2. (Return (Some (set_size field (int off2 - int offset))), off2)))"
  unfolding payload_def by (simp add: Let_def cong: if_cong)

declare readField.simps(2) [simp del]

lemma payload_mono_if:
  assumes "\<And>g off2. readGroup fuel data off1 [] = (Return g, off2) \<Longrightarrow> off1 \<le> off2"
    and "payload fuel data off1 field = (Return f, off2)"
  shows "off1 \<le> off2"
  using assms(2) assms(1)
  by (auto simp: payload_def split: if_splits dest!: bind_r_Return
           dest: readVarint_mono readU64_mono readU32_mono readVarBytes_mono)

lemma readField_readGroup_mono:
  "(\<forall>x off'. readField fuel data off tag opt = (Return x, off') \<longrightarrow> off \<le> off') \<and>
   (\<forall>g off'. readGroup fuel data off grp = (Return g, off') \<longrightarrow> off \<le> off')"
proof (induction fuel arbitrary: off tag opt grp)
  case 0
  show ?case by simp
next
  case (Suc fuel)
  have G0: "off1 \<le> off2" if "readGroup fuel data off1 g0 = (Return g, off2)" for off1 off2 g0 g
    using Suc.IH [of off1 None False g0] that by blast
  have F: "off \<le> off'" if r: "readField (Suc fuel) data off tag opt = (Return x, off')"
    for x off' off tag opt
  proof -
    obtain header off1 where h: "readVarint data off = (Return header, off1)"
      and rest: "(if tag \<noteq> None \<and> Some (ftag (newField header)) \<noteq> tag then
           (if \<not> opt then (Throw (AssertionError ''Non-optional field not present.''), off1)
            else (Return None, off))
         else
           bind_r (payload fuel data off1 (newField header))
             (\<lambda>field off2. (Return (Some (set_size field (int off2 - int off))), off2)))
         = (Return x, off')"
      using r unfolding readField_Suc by (auto dest!: bind_r_Return)
    have header_le: "off \<le> off1" by (rule readVarint_mono [OF h])
    show ?thesis
    proof (cases "tag \<noteq> None \<and> Some (ftag (newField header)) \<noteq> tag")
      case True
      with rest show ?thesis by (auto split: if_splits)
    next
      case False
      with rest obtain fld where p: "payload fuel data off1 (newField header) = (Return fld, off')"
        by (auto dest!: bind_r_Return)
      have "off1 \<le> off'" by (rule payload_mono_if [OF G0 p])
      with header_le show ?thesis by simp
    qed
  qed
  have G: "off \<le> off'" if r: "readGroup (Suc fuel) data off grp = (Return g, off')" for g off'
  proof -
    obtain inner off1 where i: "readField fuel data off None False = (Return inner, off1)"
      and rest: "(case inner of
         None \<Rightarrow> (Throw (TypeError ''Cannot read properties of null''), off1)
       | Some i \<Rightarrow>
           if ftype i = END_GROUP then (Return grp, off1)
           else readGroup fuel data off1 (grp @ [i])) = (Return g, off')"
      using r by (auto dest!: bind_r_Return)
    have "off \<le> off1" using Suc.IH [of off None False] i by blast
    moreover have "off1 \<le> off'"
      using rest G0 by (auto split: option.splits if_splits)
    ultimately show ?thesis by simp
  qed
  show ?case using F G by blast
qed

lemma payload_mono:
  "payload fuel data off1 field = (Return f, off2) \<Longrightarrow> off1 \<le> off2"
  using readField_readGroup_mono [of fuel data off1 None False "[]"]
  by (intro payload_mono_if [of fuel data off1 field f off2]) blast+

lemma readField_Some:
  assumes "readField fuel data off tag opt = (Return (Some f), off')"
  shows "fsize f = int off' - int off"
    and "off < length data \<Longrightarrow> off < off'"
proof -
  obtain n where fuel: "fuel = Suc n" using assms by (cases fuel) auto
  obtain header off1 where h: "readVarint data off = (Return header, off1)"
    and rest: "(if tag \<noteq> None \<and> Some (ftag (newField header)) \<noteq> tag then
         (if \<not> opt then (Throw (AssertionError ''Non-optional field not present.''), off1)
          else (Return None, off))
       else
         bind_r (payload n data off1 (newField header))
           (\<lambda>field off2. (Return (Some (set_size field (int off2 - int off))), off2)))
       = (Return (Some f), off')"
    using assms unfolding fuel readField_Suc by (auto dest!: bind_r_Return)
  from rest obtain fld where p: "payload n data off1 (newField header) = (Return fld, off')"
    and f: "f = set_size fld (int off' - int off)"
    by (auto split: if_splits dest!: bind_r_Return)
  show "fsize f = int off' - int off" by (simp add: f set_size_def)
  show "off < off'" if "off < length data"
    using readVarint_progress [OF h that] payload_mono [OF p] by simp
qed

lemma readField_None:
  "readField fuel data off tag opt = (Return None, off') \<Longrightarrow> opt \<and> tag \<noteq> None \<and> off' = off"
  by (cases fuel) (auto simp: readField_Suc split: if_splits dest!: bind_r_Return)

lemma nextTag_Return:
  assumes "nextTag fuel data off = (Return t, off')" and "t \<noteq> - 1"
  shows "off' = off \<and> off < length data"
proof -
  obtain l off0 where l: "left data off = (Return l, off0)"
    and rest: "(if l = 0 then (Return (- 1), off0)
       else
         bind_r (readField fuel data off0 None False) (\<lambda>field off1.
           case field of
             None \<Rightarrow> (Throw (TypeError ''Cannot read properties of null''), off1)
           | Some f \<Rightarrow>
               bind_r (seek data off1 (- fsize f)) (\<lambda>u off2. (Return (ftag f), off2))))
        = (Return t, off')"
    using assms(1) unfolding nextTag_def by (auto dest!: bind_r_Return)
  have l0: "l \<noteq> 0" using rest assms(2) by (auto split: if_splits)
  have off0: "off0 = off" and lt: "off < length data"
    using l l0 by (auto simp: left_def split: if_splits)
  from rest l0 obtain f off1 where rf: "readField fuel data off None False = (Return (Some f), off1)"
    and sk: "seek data off1 (- fsize f) = (Return (), off')"
    unfolding off0 by (auto split: option.splits dest!: bind_r_Return)
  have "fsize f = int off1 - int off" by (rule readField_Some(1) [OF rf])
  with sk have "off' = off" by (auto simp: seek_def split: if_splits)
  with lt show ?thesis by simp
qed

lemma readFieldBytes_progress:
  assumes "readFieldBytes fuel data off tag False = (Return c, off')" and "off < length data"
  shows "off < off'"
proof -
  obtain field off1 where rf: "readField fuel data off (Some tag) False = (Return field, off1)"
    and rest: "(case field of
         None \<Rightarrow> (Return None, off1)
       | Some f \<Rightarrow>
           (case fdata f of
              None \<Rightarrow> (Throw assertion_failed, off1)
            | Some d \<Rightarrow> (Return (Some d), off1))) = (Return c, off')"
    using assms(1) unfolding readFieldBytes_def by (auto dest!: bind_r_Return)
  obtain f where f: "field = Some f"
    using readField_None [of fuel data off "Some tag" False off1] rf by (cases field) auto
  have "off' = off1" using rest f by (auto split: option.splits)
  then show ?thesis using readField_Some(2) [OF rf [unfolded f] assms(2)] by simp
qed

lemma repeated_field_decreases:
  assumes "nextTag fuel data offset = (Return t, off1)" and "t \<noteq> - 1"
    and "readFieldBytes fuel data off1 tag False = (Return c, off2)"
  shows "length data - off2 < length data - offset"
proof -
  have a: "off1 = offset \<and> offset < length data" by (rule nextTag_Return [OF assms(1,2)])
  then have "offset < off2" using readFieldBytes_progress [OF assms(3)] by simp
  with a show ?thesis by auto
qed

section \<open>paymentdetails.js: decoding\<close>

text \<open>
  One round of \<open>while (br.nextTag() === 2)\<close>: a reader \<open>op\<close> over the bytes of the
  field, whose constructor refuses anything but a \<open>Buffer\<close>, and the two optional
  reads that build the output.
\<close>

definition read_output :: "nat \<Rightarrow> buffer \<Rightarrow> Output outcome" where
  "read_output fuel opdata =
     fst (bind_r (readFieldU64 fuel opdata 0 1 True) (\<lambda>v off1.
          bind_r (readFieldBytes fuel opdata off1 2 True) (\<lambda>s off2.
          (Return \<lparr>ovalue = v, script = s\<rparr>, off2))))"

function PaymentDetails_outputs_loop ::
  "nat \<Rightarrow> buffer \<Rightarrow> nat \<Rightarrow> Output list \<Rightarrow> Output list outcome \<times> nat" where
  "PaymentDetails_outputs_loop fuel data offset outs =
     bind_r (nextTag fuel data offset) (\<lambda>t off1.
       if t = 2 then
         bind_r (readFieldBytes fuel data off1 2 False) (\<lambda>opdata off2.
           case opdata of
             None \<Rightarrow> (Throw (AssertionError ''Must pass a Buffer.''), off2)
           | Some d \<Rightarrow>
               (case read_output fuel d of
                  Return output \<Rightarrow> PaymentDetails_outputs_loop fuel data off2 (outs @ [output])
                | Throw e \<Rightarrow> (Throw e, off2)
                | OutOfFuel \<Rightarrow> (OutOfFuel, off2)))
       else (Return outs, off1))"
  by pat_completeness auto
termination
  by (relation "measure (\<lambda>(fuel, data, offset, outs). length data - offset)")
     (auto intro: repeated_field_decreases)

declare PaymentDetails_outputs_loop.simps [simp del]

text \<open>
  \<open>fromRaw(data)\<close> on the object \<open>this\<close>; the result is the object once every field is
  read. The static \<open>fromRaw\<close> runs it on a new object.
\<close>

definition PaymentDetails_fromRaw ::
  "nat \<Rightarrow> PaymentDetails \<Rightarrow> buffer \<Rightarrow> PaymentDetails outcome" where
  "PaymentDetails_fromRaw fuel this data =
     fst (bind_r (readFieldString fuel data 0 1 True) (\<lambda>network_v off.
          bind_r (PaymentDetails_outputs_loop fuel data off (outputs this)) (\<lambda>outputs_v off.
          bind_r (readFieldU64 fuel data off 3 False) (\<lambda>time_v off.
          bind_r (readFieldU64 fuel data off 4 True) (\<lambda>expires_v off.
          bind_r (readFieldString fuel data off 5 True) (\<lambda>memo_v off.
          bind_r (readFieldString fuel data off 6 True) (\<lambda>paymentUrl_v off.
          bind_r (readFieldBytes fuel data off 7 True) (\<lambda>merchantData_v off.
          (Return \<lparr>network = network_v, outputs = outputs_v, time = time_v,
                   expires = expires_v, memo = memo_v, paymentUrl = paymentUrl_v,
                   merchantData = merchantData_v\<rparr>, off)))))))))"

definition PaymentDetails_fromRaw_static :: "nat \<Rightarrow> int \<Rightarrow> buffer \<Rightarrow> PaymentDetails outcome" where
  "PaymentDetails_fromRaw_static fuel now data =
     PaymentDetails_fromRaw fuel (new_PaymentDetails now) data"

section \<open>paymentrequest.js\<close>

record PaymentRequest =
  version :: int
  pkiType :: "string option"
  pkiData :: "buffer option"
  paymentDetails :: PaymentDetails
  signature :: "buffer option"

definition new_PaymentRequest :: "int \<Rightarrow> PaymentRequest" where
  "new_PaymentRequest now =
     \<lparr>version = - 1, pkiType = None, pkiData = None,
      paymentDetails = new_PaymentDetails now, signature = None\<rparr>"

definition PaymentRequest_fromRaw ::
  "nat \<Rightarrow> PaymentRequest \<Rightarrow> buffer \<Rightarrow> PaymentRequest outcome" where
  "PaymentRequest_fromRaw fuel this data =
     fst (bind_r (readFieldU32 fuel data 0 1 True) (\<lambda>version_v off.
          bind_r (readFieldString fuel data off 2 True) (\<lambda>pkiType_v off.
          bind_r (readFieldBytes fuel data off 3 True) (\<lambda>pkiData_v off.
          bind_r (readFieldBytes fuel data off 4 False) (\<lambda>details off.
          bind_r (case details of
                    None \<Rightarrow> (Throw (AssertionError ''Must pass a Buffer.''), off)
                  | Some d \<Rightarrow> (PaymentDetails_fromRaw fuel (paymentDetails this) d, off))
                 (\<lambda>paymentDetails_v off.
          bind_r (readFieldBytes fuel data off 5 True) (\<lambda>signature_v off.
          (Return \<lparr>version = version_v, pkiType = pkiType_v, pkiData = pkiData_v,
                   paymentDetails = paymentDetails_v, signature = signature_v\<rparr>, off))))))))"

definition PaymentRequest_fromRaw_static :: "nat \<Rightarrow> int \<Rightarrow> buffer \<Rightarrow> PaymentRequest outcome" where
  "PaymentRequest_fromRaw_static fuel now data =
     PaymentRequest_fromRaw fuel (new_PaymentRequest now) data"

text \<open>
  \<open>toRaw\<close>: \<open>pkiData\<close> and \<open>signature\<close> are written when truthy, and every
  \<open>Buffer\<close> is truthy, the empty one too.
\<close>

definition PaymentRequest_toRaw :: "PaymentRequest \<Rightarrow> buffer outcome" where
  "PaymentRequest_toRaw r =
     bind_o (if version r \<noteq> - 1 then writeFieldU32 1 (version r) [] else Return []) (\<lambda>bw.
     bind_o (case pkiType r of None \<Rightarrow> Return bw | Some t \<Rightarrow> writeFieldString 2 t bw) (\<lambda>bw.
     bind_o (case pkiData r of None \<Rightarrow> Return bw | Some d \<Rightarrow> writeFieldBytes 3 d bw) (\<lambda>bw.
     bind_o (PaymentDetails_toRaw (paymentDetails r)) (\<lambda>details.
     bind_o (writeFieldBytes 4 details bw) (\<lambda>bw.
     bind_o (case signature r of None \<Rightarrow> Return bw | Some sg \<Rightarrow> writeFieldBytes 5 sg bw) (\<lambda>bw.
     Return (render bw)))))))"

text \<open>\<open>String.prototype.split\<close> with a one-character separator.\<close>

fun split :: "char \<Rightarrow> string \<Rightarrow> string list" where
  "split sep [] = [[]]"
| "split sep (c # cs) =
     (if c = sep then [] # split sep cs
      else (case split sep cs of
              [] \<Rightarrow> [[c]]
            | p # ps \<Rightarrow> (c # p) # ps))"

datatype Algorithm = Algorithm (key: string) (hash: string)

definition getAlgorithm :: "PaymentRequest \<Rightarrow> Algorithm outcome" where
  "getAlgorithm r =
     (case pkiType r of
        None \<Rightarrow> Throw (Error ''No PKI type available.'')
      | Some t \<Rightarrow>
          if t = [] then Throw (Error ''No PKI type available.'')
          else
            let parts = split CHR ''+'' t in
            if length parts \<noteq> 2 then Throw (Error ''Could not parse PKI algorithm.'')
            else if parts ! 0 \<noteq> ''x509''
            then Throw (Error (''Unknown PKI type: '' @ parts ! 0 @ ''.''))
            else if parts ! 1 \<noteq> ''sha1'' \<and> parts ! 1 \<noteq> ''sha256''
            then Throw (Error (''Unknown hash algorithm: '' @ parts ! 1 @ ''.''))
            else Return (Algorithm (parts ! 0) (parts ! 1)))"

text \<open>
  \<open>signatureData\<close> returns the bytes together with the request as the call leaves it:
  the saved signature is put back only when \<open>toRaw\<close> has returned.
\<close>

definition signatureData :: "PaymentRequest \<Rightarrow> buffer outcome \<times> PaymentRequest" where
  "signatureData this =
     (let signature_v = signature this;
          this1 = this\<lparr>signature := Some []\<rparr>
      in case PaymentRequest_toRaw this1 of
           Return data \<Rightarrow> (Return data, this1\<lparr>signature := signature_v\<rparr>)
         | Throw e \<Rightarrow> (Throw e, this1)
         | OutOfFuel \<Rightarrow> (OutOfFuel, this1))"

fun setChain_loop :: "buffer list \<Rightarrow> buffer \<Rightarrow> buffer outcome" where
  "setChain_loop [] bw = Return bw"
| "setChain_loop (cert # rest) bw =
     bind_o (writeFieldBytes 1 cert bw) (\<lambda>bw. setChain_loop rest bw)"

definition setChain :: "buffer list \<Rightarrow> PaymentRequest \<Rightarrow> PaymentRequest outcome" where
  "setChain chain this =
     bind_o (setChain_loop chain []) (\<lambda>bw. Return (this\<lparr>pkiData := Some (render bw)\<rparr>))"

text \<open>
  \<open>getChain\<close>: the array holds whatever \<open>readFieldBytes(1)\<close> returned, a \<open>Buffer\<close>
  (\<open>Some\<close>) or \<open>null\<close>.
\<close>

function getChain_loop ::
  "nat \<Rightarrow> buffer \<Rightarrow> nat \<Rightarrow> buffer option list \<Rightarrow> buffer option list outcome \<times> nat" where
  "getChain_loop fuel data offset chain =
     bind_r (nextTag fuel data offset) (\<lambda>t off1.
       if t = 1 then
         bind_r (readFieldBytes fuel data off1 1 False) (\<lambda>cert off2.
           getChain_loop fuel data off2 (chain @ [cert]))
       else (Return chain, off1))"
  by pat_completeness auto
termination
  by (relation "measure (\<lambda>(fuel, data, offset, chain). length data - offset)")
     (auto intro: repeated_field_decreases)

declare getChain_loop.simps [simp del]

definition getChain :: "nat \<Rightarrow> PaymentRequest \<Rightarrow> buffer option list outcome" where
  "getChain fuel this =
     (case pkiData this of
        None \<Rightarrow> Return []
      | Some data \<Rightarrow> fst (getChain_loop fuel data 0 []))"

text \<open>
  Modelled from the spec: \<open>x509.verifySubject\<close> and \<open>x509.verifyChain\<close>
  (\<open>lib/x509.js\<close> is missing from the sources). The spec's section 6 gives their
  interfaces only, so they are parameters: each returns a boolean or throws.
\<close>

definition verify ::
  "(string \<Rightarrow> buffer \<Rightarrow> buffer option \<Rightarrow> buffer option list \<Rightarrow> bool outcome) \<Rightarrow>
   nat \<Rightarrow> PaymentRequest \<Rightarrow> bool outcome" where
  "verify x509_verifySubject fuel this =
     (if pkiType this = None \<or> pkiType this = Some [] \<or> pkiType this = Some ''none''
      then Return False
      else if signature this = None then Return False
      else
        case getAlgorithm this of
          Throw e \<Rightarrow> Return False
        | OutOfFuel \<Rightarrow> OutOfFuel
        | Return alg \<Rightarrow>
            (case signatureData this of
               (Throw e, this1) \<Rightarrow> Throw e
             | (OutOfFuel, this1) \<Rightarrow> OutOfFuel
             | (Return msg, this1) \<Rightarrow>
                 let sig = signature this1 in
                 bind_o (getChain fuel this1) (\<lambda>chain.
                   case x509_verifySubject (hash alg) msg sig chain of
                     Throw e \<Rightarrow> Return False
                   | OutOfFuel \<Rightarrow> OutOfFuel
                   | Return b \<Rightarrow> Return b)))"

definition verifyChain ::
  "(buffer option list \<Rightarrow> bool outcome) \<Rightarrow> nat \<Rightarrow> PaymentRequest \<Rightarrow> bool outcome" where
  "verifyChain x509_verifyChain fuel this =
     (if pkiType this = None \<or> pkiType this = Some [] \<or> pkiType this = Some ''none''
      then Return False
      else
        case bind_o (getChain fuel this) x509_verifyChain of
          Throw e \<Rightarrow> Return False
        | OutOfFuel \<Rightarrow> OutOfFuel
        | Return b \<Rightarrow> Return b)"

section \<open>payment.js\<close>

record Payment =
  pay_merchantData :: "buffer option"
  transactions :: "buffer option list"
  refundTo :: "Output list"
  pay_memo :: "string option"

definition Payment_getData ::
  "(string \<Rightarrow> 'j outcome) \<Rightarrow> (string \<Rightarrow> buffer \<Rightarrow> string outcome) \<Rightarrow>
   Payment \<Rightarrow> string option \<Rightarrow> 'j data_value outcome" where
  "Payment_getData json_parse to_string p enc =
     getData json_parse to_string (pay_merchantData p) enc"

text \<open>\<open>toRaw\<close> and \<open>fromRaw\<close>; a transaction is whatever \<open>readFieldBytes(2)\<close> returned.\<close>

definition new_Payment :: Payment where
  "new_Payment = \<lparr>pay_merchantData = None, transactions = [], refundTo = [], pay_memo = None\<rparr>"

fun write_transactions :: "buffer option list \<Rightarrow> buffer \<Rightarrow> buffer outcome" where
  "write_transactions [] bw = Return bw"
| "write_transactions (tx # rest) bw =
     bind_o (case tx of
               None \<Rightarrow> Throw (TypeError ''Cannot read properties of null'')
             | Some t \<Rightarrow> writeFieldBytes 2 t bw) (\<lambda>bw. write_transactions rest bw)"

definition Payment_toRaw :: "Payment \<Rightarrow> buffer outcome" where
  "Payment_toRaw p =
     bind_o (case pay_merchantData p of None \<Rightarrow> Return [] | Some m \<Rightarrow> writeFieldBytes 1 m [])
       (\<lambda>bw.
     bind_o (write_transactions (transactions p) bw) (\<lambda>bw.
     bind_o (write_outputs 3 (refundTo p) bw) (\<lambda>bw.
     bind_o (case pay_memo p of None \<Rightarrow> Return bw | Some m \<Rightarrow> writeFieldString 4 m bw) (\<lambda>bw.
     Return (render bw)))))"

function Payment_transactions_loop ::
  "nat \<Rightarrow> buffer \<Rightarrow> nat \<Rightarrow> buffer option list \<Rightarrow> buffer option list outcome \<times> nat" where
  "Payment_transactions_loop fuel data offset txs =
     bind_r (nextTag fuel data offset) (\<lambda>t off1.
       if t = 2 then
         bind_r (readFieldBytes fuel data off1 2 False) (\<lambda>tx off2.
           Payment_transactions_loop fuel data off2 (txs @ [tx]))
       else (Return txs, off1))"
  by pat_completeness auto
termination
  by (relation "measure (\<lambda>(fuel, data, offset, txs). length data - offset)")
     (auto intro: repeated_field_decreases)

declare Payment_transactions_loop.simps [simp del]

function Payment_refundTo_loop ::
  "nat \<Rightarrow> buffer \<Rightarrow> nat \<Rightarrow> Output list \<Rightarrow> Output list outcome \<times> nat" where
  "Payment_refundTo_loop fuel data offset outs =
     bind_r (nextTag fuel data offset) (\<lambda>t off1.
       if t = 3 then
         bind_r (readFieldBytes fuel data off1 3 False) (\<lambda>opdata off2.
           case opdata of
             None \<Rightarrow> (Throw (AssertionError ''Must pass a Buffer.''), off2)
           | Some d \<Rightarrow>
               (case read_output fuel d of
                  Return output \<Rightarrow> Payment_refundTo_loop fuel data off2 (outs @ [output])
                | Throw e \<Rightarrow> (Throw e, off2)
                | OutOfFuel \<Rightarrow> (OutOfFuel, off2)))
       else (Return outs, off1))"
  by pat_completeness auto
termination
  by (relation "measure (\<lambda>(fuel, data, offset, outs). length data - offset)")
     (auto intro: repeated_field_decreases)

declare Payment_refundTo_loop.simps [simp del]

definition Payment_fromRaw :: "nat \<Rightarrow> Payment \<Rightarrow> buffer \<Rightarrow> Payment outcome" where
  "Payment_fromRaw fuel this data =
     fst (bind_r (readFieldBytes fuel data 0 1 True) (\<lambda>merchantData_v off.
          bind_r (Payment_transactions_loop fuel data off (transactions this)) (\<lambda>transactions_v off.
          bind_r (Payment_refundTo_loop fuel data off (refundTo this)) (\<lambda>refundTo_v off.
          bind_r (readFieldString fuel data off 4 True) (\<lambda>memo_v off.
          (Return \<lparr>pay_merchantData = merchantData_v, transactions = transactions_v,
                   refundTo = refundTo_v, pay_memo = memo_v\<rparr>, off))))))"

definition Payment_fromRaw_static :: "nat \<Rightarrow> buffer \<Rightarrow> Payment outcome" where
  "Payment_fromRaw_static fuel data = Payment_fromRaw fuel new_Payment data"

section \<open>paymentack.js\<close>

record PaymentACK =
  payment :: Payment
  ack_memo :: "string option"

definition new_PaymentACK :: PaymentACK where
  "new_PaymentACK = \<lparr>payment = new_Payment, ack_memo = None\<rparr>"

definition PaymentACK_toRaw :: "PaymentACK \<Rightarrow> buffer outcome" where
  "PaymentACK_toRaw a =
     bind_o (Payment_toRaw (payment a)) (\<lambda>raw.
     bind_o (writeFieldBytes 1 raw []) (\<lambda>bw.
     bind_o (case ack_memo a of None \<Rightarrow> Return bw | Some m \<Rightarrow> writeFieldString 2 m bw) (\<lambda>bw.
     Return (render bw))))"

definition PaymentACK_fromRaw :: "nat \<Rightarrow> PaymentACK \<Rightarrow> buffer \<Rightarrow> PaymentACK outcome" where
  "PaymentACK_fromRaw fuel this data =
     fst (bind_r (readFieldBytes fuel data 0 1 False) (\<lambda>raw off.
          bind_r (case raw of
                    None \<Rightarrow> (Throw (AssertionError ''Must pass a Buffer.''), off)
                  | Some d \<Rightarrow> (Payment_fromRaw fuel (payment this) d, off)) (\<lambda>payment_v off.
          bind_r (readFieldString fuel data off 2 True) (\<lambda>memo_v off.
          (Return \<lparr>payment = payment_v, ack_memo = memo_v\<rparr>, off)))))"

definition PaymentACK_fromRaw_static :: "nat \<Rightarrow> buffer \<Rightarrow> PaymentACK outcome" where
  "PaymentACK_fromRaw_static fuel data = PaymentACK_fromRaw fuel new_PaymentACK data"

section \<open>Vocabulary of the properties\<close>

text \<open>
  The predicates and byte layouts the theorems below are stated with. None of them is
  part of the program.
\<close>

text \<open>
  A varint on the wire is a non-empty run of bytes, the continuation bit \<open>0x80\<close> set on
  all but the last; its value is the base-128 number its low seven bits spell, least
  significant group first.
\<close>

fun varint_value :: "buffer \<Rightarrow> int" where
  "varint_value [] = 0"
| "varint_value (b # bs) = uint (b AND 0x7f) + 128 * varint_value bs"

definition continued :: "buffer \<Rightarrow> bool" where
  "continued cs = (\<forall>b \<in> set cs. b AND 0x80 \<noteq> 0)"

definition is_varint :: "buffer \<Rightarrow> bool" where
  "is_varint gs = (gs \<noteq> [] \<and> continued (butlast gs) \<and> last gs AND 0x80 = 0)"

text \<open>
  A request as \<open>fromRaw\<close> decodes it from 23 bytes off the wire: an \<open>x509+sha256\<close>
  request whose \<open>pkiData\<close> is the single byte \<open>0x0c\<close>, the header of an
  \<open>END_GROUP\<close> field with tag 1.
\<close>

definition end_group_request :: PaymentRequest where
  "end_group_request =
     \<lparr>version = - 1, pkiType = Some ''x509+sha256'', pkiData = Some [0x0c],
      paymentDetails = \<lparr>network = None, outputs = [], time = 0, expires = - 1, memo = None,
                         paymentUrl = None, merchantData = None\<rparr>,
      signature = Some [0x00]\<rparr>"

text \<open>
  What \<open>setChain\<close> writes for one certificate, and for a chain: the header \<open>0x0a\<close>
  (tag 1, length-delimited), the length as a varint, the bytes.
\<close>

definition cert_field :: "buffer \<Rightarrow> buffer" where
  "cert_field c = [0x0a] @ encode_groups (length c) @ c"

definition chain_bytes :: "buffer list \<Rightarrow> buffer" where
  "chain_bytes certs = concat (map cert_field certs)"

text \<open>
  The bytes of one field: a header byte (tags below 16 fit one group), then a varint, or
  a varint length and the payload.
\<close>

definition hdr :: "int \<Rightarrow> int \<Rightarrow> byte" where
  "hdr t w = word_of_int (t * 8 + w)"

definition vfield :: "int \<Rightarrow> nat \<Rightarrow> buffer" where
  "vfield t v = hdr t 0 # encode_groups v"

definition dfield :: "int \<Rightarrow> buffer \<Rightarrow> buffer" where
  "dfield t d = hdr t 2 # encode_groups (length d) @ d"

definition small_tag :: "int \<Rightarrow> bool" where
  "small_tag t = (0 < t \<and> t < 16)"

text \<open>What follows the cursor does not start a field with tag \<open>t\<close>.\<close>

definition no_field :: "int \<Rightarrow> buffer \<Rightarrow> bool" where
  "no_field t post =
     (post = [] \<or> (\<exists>t' w rest. post = hdr t' w # rest \<and> t' \<noteq> t \<and>
                      0 \<le> t' \<and> t' < 16 \<and> 0 \<le> w \<and> w < 8))"

text \<open>The bytes of optional fields, and what may follow a field in a message.\<close>

definition opt_d :: "int \<Rightarrow> buffer option \<Rightarrow> buffer" where
  "opt_d t x = (case x of None \<Rightarrow> [] | Some d \<Rightarrow> dfield t d)"

definition opt_s :: "int \<Rightarrow> string option \<Rightarrow> buffer" where
  "opt_s t x = (case x of None \<Rightarrow> [] | Some str \<Rightarrow> dfield t (from_utf8 str))"

definition opt_v :: "int \<Rightarrow> int \<Rightarrow> buffer" where
  "opt_v t v = (if v \<noteq> - 1 then vfield t (nat v) else [])"

definition starts_from :: "int \<Rightarrow> buffer \<Rightarrow> bool" where
  "starts_from t bs =
     (bs = [] \<or> (\<exists>t' w rest. bs = hdr t' w # rest \<and> t \<le> t' \<and> t' < 16 \<and> 0 \<le> w \<and> w < 8))"

text \<open>
  An output the codec carries unchanged: a value below \<open>2^42\<close> and a script, and the
  bytes \<open>toRaw\<close> embeds for it.
\<close>

definition valid_output :: "Output \<Rightarrow> bool" where
  "valid_output output =
     (0 \<le> ovalue output \<and> ovalue output < 2 ^ 42 \<and>
      (\<exists>s. script output = Some s \<and> length s < 2 ^ 31))"

definition out_bytes :: "Output \<Rightarrow> buffer" where
  "out_bytes output =
     (case script output of
        None \<Rightarrow> []
      | Some s \<Rightarrow> vfield 1 (nat (ovalue output)) @ dfield 2 s)"

definition outs_bytes :: "int \<Rightarrow> Output list \<Rightarrow> buffer" where
  "outs_bytes t outs = concat (map (\<lambda>output. dfield t (out_bytes output)) outs)"

text \<open>
  The payment details the codec carries unchanged: every number a non-negative integer
  below \<open>2^42\<close> (or the sentinel \<open>-1\<close> in \<open>expires\<close>), every string and buffer
  shorter than \<open>2^32\<close> bytes.
\<close>

definition valid_details :: "PaymentDetails \<Rightarrow> bool" where
  "valid_details d =
     ((\<forall>s. network d = Some s \<longrightarrow> length s < 2 ^ 32) \<and>
      (\<forall>output \<in> set (outputs d). valid_output output) \<and>
      0 \<le> time d \<and> time d < 2 ^ 42 \<and>
      (expires d = - 1 \<or> (0 \<le> expires d \<and> expires d < 2 ^ 42)) \<and>
      (\<forall>s. memo d = Some s \<longrightarrow> length s < 2 ^ 32) \<and>
      (\<forall>s. paymentUrl d = Some s \<longrightarrow> length s < 2 ^ 32) \<and>
      (\<forall>m. merchantData d = Some m \<longrightarrow> length m < 2 ^ 32))"

definition details_bytes :: "PaymentDetails \<Rightarrow> buffer" where
  "details_bytes d =
     opt_s 1 (network d) @ outs_bytes 2 (outputs d) @ vfield 3 (nat (time d)) @
     opt_v 4 (expires d) @ opt_s 5 (memo d) @ opt_s 6 (paymentUrl d) @ opt_d 7 (merchantData d)"

definition valid_request :: "PaymentRequest \<Rightarrow> bool" where
  "valid_request r =
     ((version r = - 1 \<or> (0 \<le> version r \<and> version r < 2 ^ 31)) \<and>
      (\<forall>s. pkiType r = Some s \<longrightarrow> length s < 2 ^ 32) \<and>
      (\<forall>x. pkiData r = Some x \<longrightarrow> length x < 2 ^ 32) \<and>
      valid_details (paymentDetails r) \<and>
      length (details_bytes (paymentDetails r)) < 2 ^ 32 \<and>
      (\<forall>x. signature r = Some x \<longrightarrow> length x < 2 ^ 32))"

definition request_bytes :: "PaymentRequest \<Rightarrow> buffer" where
  "request_bytes r =
     opt_v 1 (version r) @ opt_s 2 (pkiType r) @ opt_d 3 (pkiData r) @
     dfield 4 (details_bytes (paymentDetails r)) @ opt_d 5 (signature r)"

text \<open>The payment details of the spec's end-to-end scenario, and an unsigned request for them.\<close>

definition example_details :: PaymentDetails where
  "example_details =
     \<lparr>network = Some ''testnet'', outputs = [\<lparr>ovalue = 10000, script = Some []\<rparr>],
      time = 1000, expires = 2000, memo = None, paymentUrl = None, merchantData = None\<rparr>"

definition example_request :: PaymentRequest where
  "example_request =
     \<lparr>version = 1, pkiType = Some ''none'', pkiData = None,
      paymentDetails = example_details, signature = None\<rparr>"

text \<open>
  The payments and acknowledgements the codec carries unchanged, and the bytes \<open>toRaw\<close>
  writes for them.
\<close>

definition tx_bytes :: "buffer option \<Rightarrow> buffer" where
  "tx_bytes tx = (case tx of None \<Rightarrow> [] | Some t \<Rightarrow> dfield 2 t)"

definition txs_bytes :: "buffer option list \<Rightarrow> buffer" where
  "txs_bytes txs = concat (map tx_bytes txs)"

definition valid_tx :: "buffer option \<Rightarrow> bool" where
  "valid_tx tx = (\<exists>t. tx = Some t \<and> length t < 2 ^ 32)"

definition valid_payment :: "Payment \<Rightarrow> bool" where
  "valid_payment p =
     ((\<forall>m. pay_merchantData p = Some m \<longrightarrow> length m < 2 ^ 32) \<and>
      (\<forall>tx \<in> set (transactions p). valid_tx tx) \<and>
      (\<forall>output \<in> set (refundTo p). valid_output output) \<and>
      (\<forall>s. pay_memo p = Some s \<longrightarrow> length s < 2 ^ 32))"

definition payment_bytes :: "Payment \<Rightarrow> buffer" where
  "payment_bytes p =
     opt_d 1 (pay_merchantData p) @ txs_bytes (transactions p) @
     outs_bytes 3 (refundTo p) @ opt_s 4 (pay_memo p)"

definition valid_ack :: "PaymentACK \<Rightarrow> bool" where
  "valid_ack a =
     (valid_payment (payment a) \<and> length (payment_bytes (payment a)) < 2 ^ 32 \<and>
      (\<forall>s. ack_memo a = Some s \<longrightarrow> length s < 2 ^ 32))"

definition ack_bytes :: "PaymentACK \<Rightarrow> buffer" where
  "ack_bytes a = dfield 1 (payment_bytes (payment a)) @ opt_s 2 (ack_memo a)"

definition example_payment :: Payment where
  "example_payment =
     \<lparr>pay_merchantData = Some [0x01], transactions = [Some [0x02, 0x03], Some []],
      refundTo = [\<lparr>ovalue = 5, script = Some [0x09]\<rparr>], pay_memo = Some ''hi''\<rparr>"

definition example_ack :: PaymentACK where
  "example_ack = \<lparr>payment = example_payment, ack_memo = Some ''ok''\<rparr>"

section \<open>Properties\<close>

subsection \<open>Expiry\<close>

text \<open>
  Claim C9. For every payment details value and every clock reading \<open>now\<close> (the
  milliseconds \<open>Date.now()\<close> returns), \<open>isExpired\<close> is false when \<open>expires\<close> holds
  the absence sentinel \<open>-1\<close>, and otherwise it is true exactly when the clock in whole
  unix seconds is strictly greater than \<open>expires\<close>.
\<close>

theorem isExpired_iff:
  "isExpired now d = (expires d \<noteq> - 1 \<and> expires d < now div 1000)"
  by (simp add: isExpired_def)

subsection \<open>Merchant data as JSON\<close>

text \<open>
  Claim C10. \<open>getData('json')\<close>, on a \<open>PaymentDetails\<close> or a \<open>Payment\<close>, never throws,
  whatever \<open>JSON.parse\<close> does: it returns \<open>null\<close> when \<open>merchantData\<close> is absent, it
  returns \<open>null\<close> when \<open>JSON.parse\<close> throws on the stored bytes, and it returns a parsed
  value exactly when \<open>JSON.parse\<close> returned that value.
\<close>

theorem getData_json_never_raises:
  "(\<forall>e. getData json_parse to_string m (Some ''json'') \<noteq> Throw e) \<and>
   (m = None \<longrightarrow> getData json_parse to_string m (Some ''json'') = Return DNull) \<and>
   (\<forall>d e. m = Some d \<and> json_parse (toString_utf8 d) = Throw e \<longrightarrow>
      getData json_parse to_string m (Some ''json'') = Return DNull) \<and>
   (\<forall>v. getData json_parse to_string m (Some ''json'') = Return (DJson v) \<longrightarrow>
      (\<exists>d. m = Some d \<and> json_parse (toString_utf8 d) = Return v)) \<and>
   (\<forall>d v. m = Some d \<and> json_parse (toString_utf8 d) = Return v \<longrightarrow>
      getData json_parse to_string m (Some ''json'') = Return (DJson v)) \<and>
   PaymentDetails_getData json_parse to_string pd (Some ''json'')
     = getData json_parse to_string (merchantData pd) (Some ''json'') \<and>
   Payment_getData json_parse to_string p (Some ''json'')
     = getData json_parse to_string (pay_merchantData p) (Some ''json'')"
  by (auto simp: getData_def PaymentDetails_getData_def Payment_getData_def
           split: option.splits outcome.splits)

theorem getData_json_never_raises_witness:
  "getData (\<lambda>s. if s = [] then Return (1::nat) else Throw (Error ''SyntaxError''))
     (\<lambda>enc d. Return []) (Some [0x7b]) (Some ''json'') = Return DNull \<and>
   getData (\<lambda>s. if s = [] then Return (1::nat) else Throw (Error ''SyntaxError''))
     (\<lambda>enc d. Return []) (Some []) (Some ''json'') = Return (DJson 1) \<and>
   getData (\<lambda>s. if s = [] then Return (1::nat) else Throw (Error ''SyntaxError''))
     (\<lambda>enc d. Return []) None (Some ''json'') = Return DNull"
proof -
  let ?jp = "\<lambda>s. if s = [] then Return (1::nat) else Throw (Error ''SyntaxError'')"
  let ?ts = "\<lambda>enc d. Return []"
  have bad: "Some [0x7b] = Some [0x7b] \<and> ?jp (toString_utf8 [0x7b]) = Throw (Error ''SyntaxError'')"
    by (simp add: toString_utf8_def)
  have good: "Some [] = Some [] \<and> ?jp (toString_utf8 []) = Return 1"
    by (simp add: toString_utf8_def)
  have a: "getData ?jp ?ts (Some [0x7b]) (Some ''json'') = Return DNull"
    by (rule getData_json_never_raises [of ?jp ?ts "Some [0x7b]",
          THEN conjunct2, THEN conjunct2, THEN conjunct1, rule_format, OF bad])
  have b: "getData ?jp ?ts (Some []) (Some ''json'') = Return (DJson 1)"
    by (rule getData_json_never_raises [of ?jp ?ts "Some []",
          THEN conjunct2, THEN conjunct2, THEN conjunct2, THEN conjunct2, THEN conjunct1,
          rule_format, OF good])
  have c: "getData ?jp ?ts None (Some ''json'') = Return DNull"
    by (rule getData_json_never_raises [of ?jp ?ts None,
          THEN conjunct2, THEN conjunct1, rule_format, OF refl])
  from a b c show ?thesis by (intro conjI)
qed

subsection \<open>Algorithm resolution\<close>

lemma split_not_Nil: "split sep s \<noteq> []"
  by (induction s) (auto split: list.splits)

lemma split_single: "split sep s = [b] \<Longrightarrow> s = b"
  by (induction s arbitrary: b) (auto simp: split_not_Nil split: if_splits list.splits)

lemma split_two: "split sep s = [a, b] \<Longrightarrow> s = a @ sep # b"
proof (induction s arbitrary: a)
  case Nil
  then show ?case by simp
next
  case (Cons c cs)
  show ?case
  proof (cases "c = sep")
    case True
    with Cons.prems have "a = []" and "split sep cs = [b]" by simp_all
    then show ?thesis using True split_single [of sep cs b] by simp
  next
    case False
    with Cons.prems obtain p where "split sep cs = [p, b]" and "a = c # p"
      by (auto simp: split_not_Nil split: list.splits)
    then show ?thesis using Cons.IH [of p] by simp
  qed
qed

lemma length_two: "length xs = 2 \<Longrightarrow> xs = [xs ! 0, xs ! 1]"
  by (cases xs; cases "tl xs") auto

text \<open>
  Claim C7. \<open>getAlgorithm\<close> returns a scheme and digest pair for exactly the two
  \<open>pkiType\<close> strings \<open>x509+sha1\<close> and \<open>x509+sha256\<close>, and then the pair named by the
  string. Every other request makes it throw (it never fails to return in another
  way): with \<open>Could not parse PKI algorithm.\<close> when splitting a non-empty \<open>pkiType\<close>
  on \<open>+\<close> does not give exactly two parts, with \<open>Unknown PKI type\<close> when the first of
  two parts is not \<open>x509\<close>, with \<open>Unknown hash algorithm\<close> when the second part is
  neither \<open>sha1\<close> nor \<open>sha256\<close>.
\<close>

theorem getAlgorithm_spec:
  "(getAlgorithm r = Return a \<longleftrightarrow>
      (pkiType r = Some ''x509+sha1'' \<and> a = Algorithm ''x509'' ''sha1'') \<or>
      (pkiType r = Some ''x509+sha256'' \<and> a = Algorithm ''x509'' ''sha256'')) \<and>
   getAlgorithm r \<noteq> OutOfFuel \<and>
   (\<forall>t. pkiType r = Some t \<and> t \<noteq> [] \<and> length (split CHR ''+'' t) \<noteq> 2 \<longrightarrow>
      getAlgorithm r = Throw (Error ''Could not parse PKI algorithm.'')) \<and>
   (\<forall>t p0 p1. pkiType r = Some t \<and> t \<noteq> [] \<and> split CHR ''+'' t = [p0, p1] \<and> p0 \<noteq> ''x509'' \<longrightarrow>
      getAlgorithm r = Throw (Error (''Unknown PKI type: '' @ p0 @ ''.''))) \<and>
   (\<forall>t p1. pkiType r = Some t \<and> split CHR ''+'' t = [''x509'', p1] \<and>
        p1 \<noteq> ''sha1'' \<and> p1 \<noteq> ''sha256'' \<longrightarrow>
      getAlgorithm r = Throw (Error (''Unknown hash algorithm: '' @ p1 @ ''.'')))"
proof (intro conjI allI impI)
  show "getAlgorithm r \<noteq> OutOfFuel"
    by (simp add: getAlgorithm_def Let_def split: option.splits)
next
  show "getAlgorithm r = Return a \<longleftrightarrow>
      (pkiType r = Some ''x509+sha1'' \<and> a = Algorithm ''x509'' ''sha1'') \<or>
      (pkiType r = Some ''x509+sha256'' \<and> a = Algorithm ''x509'' ''sha256'')"
  proof
    assume ok: "getAlgorithm r = Return a"
    then obtain t where t: "pkiType r = Some t" "t \<noteq> []"
      by (auto simp: getAlgorithm_def split: option.splits if_splits)
    let ?parts = "split CHR ''+'' t"
    from ok t have len: "length ?parts = 2" and p0: "?parts ! 0 = ''x509''"
      and p1: "?parts ! 1 = ''sha1'' \<or> ?parts ! 1 = ''sha256''"
      and a: "a = Algorithm (?parts ! 0) (?parts ! 1)"
      by (auto simp: getAlgorithm_def Let_def split: if_splits)
    have parts: "?parts = [''x509'', ?parts ! 1]" using length_two [OF len] p0 by simp
    from p1 show "(pkiType r = Some ''x509+sha1'' \<and> a = Algorithm ''x509'' ''sha1'') \<or>
      (pkiType r = Some ''x509+sha256'' \<and> a = Algorithm ''x509'' ''sha256'')"
    proof
      assume s: "?parts ! 1 = ''sha1''"
      with parts have "?parts = [''x509'', ''sha1'']" by simp
      from split_two [OF this] have "t = ''x509+sha1''" by simp
      with t a p0 s show ?thesis by simp
    next
      assume s: "?parts ! 1 = ''sha256''"
      with parts have "?parts = [''x509'', ''sha256'']" by simp
      from split_two [OF this] have "t = ''x509+sha256''" by simp
      with t a p0 s show ?thesis by simp
    qed
  next
    assume "(pkiType r = Some ''x509+sha1'' \<and> a = Algorithm ''x509'' ''sha1'') \<or>
      (pkiType r = Some ''x509+sha256'' \<and> a = Algorithm ''x509'' ''sha256'')"
    then show "getAlgorithm r = Return a"
      by (auto simp: getAlgorithm_def)
  qed
next
  fix t assume "pkiType r = Some t \<and> t \<noteq> [] \<and> length (split CHR ''+'' t) \<noteq> 2"
  then show "getAlgorithm r = Throw (Error ''Could not parse PKI algorithm.'')"
    by (simp add: getAlgorithm_def)
next
  fix t p0 p1
  assume "pkiType r = Some t \<and> t \<noteq> [] \<and> split CHR ''+'' t = [p0, p1] \<and> p0 \<noteq> ''x509''"
  then show "getAlgorithm r = Throw (Error (''Unknown PKI type: '' @ p0 @ ''.''))"
    by (simp add: getAlgorithm_def)
next
  fix t p1
  assume h: "pkiType r = Some t \<and> split CHR ''+'' t = [''x509'', p1] \<and>
        p1 \<noteq> ''sha1'' \<and> p1 \<noteq> ''sha256''"
  then have "t \<noteq> []" by auto
  with h show "getAlgorithm r = Throw (Error (''Unknown hash algorithm: '' @ p1 @ ''.''))"
    by (simp add: getAlgorithm_def)
qed

theorem getAlgorithm_spec_witness:
  "getAlgorithm ((new_PaymentRequest 0)\<lparr>pkiType := Some ''x509+sha256''\<rparr>)
     = Return (Algorithm ''x509'' ''sha256'') \<and>
   getAlgorithm ((new_PaymentRequest 0)\<lparr>pkiType := Some ''x509''\<rparr>)
     = Throw (Error ''Could not parse PKI algorithm.'') \<and>
   getAlgorithm ((new_PaymentRequest 0)\<lparr>pkiType := Some ''pgp+sha256''\<rparr>)
     = Throw (Error (''Unknown PKI type: '' @ ''pgp'' @ ''.'')) \<and>
   getAlgorithm ((new_PaymentRequest 0)\<lparr>pkiType := Some ''x509+md5''\<rparr>)
     = Throw (Error (''Unknown hash algorithm: '' @ ''md5'' @ ''.''))"
proof -
  let ?r = "\<lambda>t. (new_PaymentRequest 0)\<lparr>pkiType := Some t\<rparr>"
  have h1: "pkiType (?r ''x509+sha256'') = Some ''x509+sha256'' \<and>
        Algorithm ''x509'' ''sha256'' = Algorithm ''x509'' ''sha256''"
    by simp
  have a: "getAlgorithm (?r ''x509+sha256'') = Return (Algorithm ''x509'' ''sha256'')"
    by (rule getAlgorithm_spec [of "?r ''x509+sha256''" "Algorithm ''x509'' ''sha256''",
          THEN conjunct1, THEN iffD2, OF disjI2, OF h1])
  have h2: "pkiType (?r ''x509'') = Some ''x509'' \<and> ''x509'' \<noteq> [] \<and>
        length (split CHR ''+'' ''x509'') \<noteq> 2"
    by simp
  have b: "getAlgorithm (?r ''x509'') = Throw (Error ''Could not parse PKI algorithm.'')"
    by (rule getAlgorithm_spec [of "?r ''x509''",
          THEN conjunct2, THEN conjunct2, THEN conjunct1, rule_format, OF h2])
  have h3: "pkiType (?r ''pgp+sha256'') = Some ''pgp+sha256'' \<and> ''pgp+sha256'' \<noteq> [] \<and>
        split CHR ''+'' ''pgp+sha256'' = [''pgp'', ''sha256''] \<and> ''pgp'' \<noteq> ''x509''"
    by simp
  have c: "getAlgorithm (?r ''pgp+sha256'') = Throw (Error (''Unknown PKI type: '' @ ''pgp'' @ ''.''))"
    by (rule getAlgorithm_spec [of "?r ''pgp+sha256''",
          THEN conjunct2, THEN conjunct2, THEN conjunct2, THEN conjunct1, rule_format, OF h3])
  have h4: "pkiType (?r ''x509+md5'') = Some ''x509+md5'' \<and>
        split CHR ''+'' ''x509+md5'' = [''x509'', ''md5''] \<and>
        ''md5'' \<noteq> ''sha1'' \<and> ''md5'' \<noteq> ''sha256''"
    by simp
  have d: "getAlgorithm (?r ''x509+md5'') = Throw (Error (''Unknown hash algorithm: '' @ ''md5'' @ ''.''))"
    by (rule getAlgorithm_spec [of "?r ''x509+md5''",
          THEN conjunct2, THEN conjunct2, THEN conjunct2, THEN conjunct2, rule_format, OF h4])
  from a b c d show ?thesis by (intro conjI)
qed

subsection \<open>The bytes that are signed\<close>

lemma encode_groups_small: "n < 128 \<Longrightarrow> encode_groups n = [of_nat n]"
  by (simp add: encode_groups.simps)

lemma writeFieldBytes_empty: "writeFieldBytes 5 [] bw = Return (bw @ [0x2a, 0x00])"
  by (simp add: writeFieldBytes_def writeVarint_def bind_o_def DELIMITED_def encode_groups_small)

text \<open>
  Claim C1. \<open>signatureData\<close> yields what \<open>toRaw\<close> yields for the request with its
  signature replaced by the empty buffer, which is the serialization without a signature
  followed by the empty length-delimited field 5 (the bytes \<open>0x2a 0x00\<close>); so the
  result does not depend on the signature the request holds, \<open>null\<close> or not. When the
  call returns, the request is what it was before the call, signature included.
\<close>

theorem signatureData_spec:
  "fst (signatureData r) = PaymentRequest_toRaw (r\<lparr>signature := Some []\<rparr>) \<and>
   PaymentRequest_toRaw (r\<lparr>signature := Some []\<rparr>)
     = bind_o (PaymentRequest_toRaw (r\<lparr>signature := None\<rparr>)) (\<lambda>raw. Return (raw @ [0x2a, 0x00])) \<and>
   fst (signatureData (r\<lparr>signature := s\<rparr>)) = fst (signatureData (r\<lparr>signature := None\<rparr>)) \<and>
   (\<forall>data. fst (signatureData r) = Return data \<longrightarrow> snd (signatureData r) = r)"
proof (intro conjI allI impI)
  show 1: "fst (signatureData r) = PaymentRequest_toRaw (r\<lparr>signature := Some []\<rparr>)" for r
    by (simp add: signatureData_def Let_def split: outcome.splits)
  show "PaymentRequest_toRaw (r\<lparr>signature := Some []\<rparr>)
     = bind_o (PaymentRequest_toRaw (r\<lparr>signature := None\<rparr>)) (\<lambda>raw. Return (raw @ [0x2a, 0x00]))"
    by (simp add: PaymentRequest_toRaw_def bind_o_def render_def writeFieldBytes_empty
             split: outcome.splits)
  show "fst (signatureData (r\<lparr>signature := s\<rparr>)) = fst (signatureData (r\<lparr>signature := None\<rparr>))"
    by (simp add: 1)
  show "snd (signatureData r) = r" if "fst (signatureData r) = Return data" for data
    using that by (simp add: signatureData_def Let_def split: outcome.splits)
qed

theorem signatureData_spec_witness:
  "fst (signatureData ((new_PaymentRequest 0)\<lparr>signature := Some [1, 2, 3]\<rparr>))
     = Return [0x22, 0x02, 0x18, 0x00, 0x2a, 0x00] \<and>
   snd (signatureData ((new_PaymentRequest 0)\<lparr>signature := Some [1, 2, 3]\<rparr>))
     = (new_PaymentRequest 0)\<lparr>signature := Some [1, 2, 3]\<rparr>"
proof -
  let ?r = "(new_PaymentRequest 0)\<lparr>signature := Some [1, 2, 3]\<rparr>"
  have e: "fst (signatureData ?r) = Return [0x22, 0x02, 0x18, 0x00, 0x2a, 0x00]"
    by (simp add: signatureData_def PaymentRequest_toRaw_def PaymentDetails_toRaw_def
          new_PaymentRequest_def new_PaymentDetails_def bind_o_def render_def
          writeFieldBytes_def writeFieldU64_def writeVarint_def DELIMITED_def VARINT_def
          encode_groups_small)
  have "snd (signatureData ?r) = ?r"
    by (rule signatureData_spec [of ?r, THEN conjunct2, THEN conjunct2, THEN conjunct2,
          rule_format, OF e])
  with e show ?thesis by (intro conjI)
qed

subsection \<open>Reading varints\<close>

lemma low7_bound: "uint ((ch::byte) AND 0x7f) < 128"
proof -
  have "ch AND 0x7f \<le> 0x7f" by (rule word_and_le1)
  then have "uint (ch AND 0x7f) \<le> uint (0x7f :: byte)" by (simp add: word_le_def)
  then show ?thesis by simp
qed

lemma push_bit_ucast_byte: "(push_bit k (ucast (w::byte)) :: 32 word) = word_of_int (uint w * 2 ^ k)"
  by (simp add: push_bit_eq_mult)

lemma low7_shift_bound:
  assumes "k \<le> 21"
  shows "uint ((ch::byte) AND 0x7f) * 2 ^ k < 2 ^ 31"
proof -
  let ?w = "ch AND 0x7f"
  have b: "uint ?w < 128" by (rule low7_bound)
  have p: "(2::int) ^ k \<le> 2 ^ 21" using assms by (intro power_increasing) auto
  have "uint ?w * 2 ^ k \<le> 127 * 2 ^ 21"
    using b p by (intro mult_mono) auto
  then show  "uint ?w * 2 ^ k < 2 ^ 31" by simp
qed

lemma sint_push_small:
  assumes "k \<le> 21"
  shows "sint (push_bit k (ucast ((ch::byte) AND 0x7f)) :: 32 word) = uint (ch AND 0x7f) * 2 ^ k"
proof -
  have "sint (word_of_int (uint (ch AND 0x7f) * 2 ^ k) :: 32 word) = uint (ch AND 0x7f) * 2 ^ k"
  proof -
    have lo: "- (2 ^ 31) \<le> uint (ch AND 0x7f) * 2 ^ k"
      by (rule order_trans [of _ 0]) simp_all
    have hi: "uint (ch AND 0x7f) * 2 ^ k < 2 ^ 31"
      using low7_shift_bound [OF assms, of ch] by simp
    show ?thesis
      unfolding sint_sbintrunc' using lo hi
      by (simp add: signed_take_bit_int_eq_self)
  qed
  then show ?thesis by (simp only: push_bit_ucast_byte)
qed

lemma group_term_eq: "group_term sz ch = uint (ch AND 0x7f) * 2 ^ (7 * sz)"
proof (cases "sz \<le> 3")
  case True
  then have "7 * sz \<le> 21" by simp
  then show ?thesis using True by (simp only: group_term_def sint_push_small if_True)
next
  case False
  then show ?thesis by (simp add: group_term_def)
qed

lemma loop_step:
  "off < length data \<Longrightarrow> sz \<le> 5 \<Longrightarrow>
   readVarint_loop data off num sz =
     (if data ! off AND 0x80 \<noteq> 0
      then readVarint_loop data (off + 1) (num + uint (data ! off AND 0x7f) * 2 ^ (7 * sz)) (sz + 1)
      else Return (Varint (sz + 1) (num + uint (data ! off AND 0x7f) * 2 ^ (7 * sz))))"
  by (subst readVarint_loop.simps) (simp add: group_term_eq Let_def)

lemma loop_cont:
  "continued cs \<Longrightarrow> sz + length cs \<le> 6 \<Longrightarrow>
   readVarint_loop (pre @ cs @ rest) (length pre) num sz =
   readVarint_loop (pre @ cs @ rest) (length pre + length cs)
     (num + 2 ^ (7 * sz) * varint_value cs) (sz + length cs)"
proof (induction cs arbitrary: pre num sz)
  case Nil
  then show ?case by simp
next
  case (Cons c cs)
  have c: "c AND 0x80 \<noteq> 0" and cs: "continued cs"
    using Cons.prems(1) by (simp_all add: continued_def)
  have sz: "sz \<le> 5" "Suc sz + length cs \<le> 6" using Cons.prems(2) by simp_all
  have "readVarint_loop (pre @ (c # cs) @ rest) (length pre) num sz =
        readVarint_loop (pre @ (c # cs) @ rest) (length pre + 1)
          (num + uint (c AND 0x7f) * 2 ^ (7 * sz)) (sz + 1)"
    using c sz(1) by (subst loop_step) simp_all
  also have "\<dots> = readVarint_loop ((pre @ [c]) @ cs @ rest) (length (pre @ [c]))
          (num + uint (c AND 0x7f) * 2 ^ (7 * sz)) (Suc sz)"
    by simp
  also have "\<dots> = readVarint_loop ((pre @ [c]) @ cs @ rest) (length (pre @ [c]) + length cs)
          (num + uint (c AND 0x7f) * 2 ^ (7 * sz) + 2 ^ (7 * Suc sz) * varint_value cs)
          (Suc sz + length cs)"
    by (rule Cons.IH [OF cs sz(2)])
  finally have F: "readVarint_loop (pre @ (c # cs) @ rest) (length pre) num sz =
      readVarint_loop ((pre @ [c]) @ cs @ rest) (length (pre @ [c]) + length cs)
          (num + uint (c AND 0x7f) * 2 ^ (7 * sz) + 2 ^ (7 * Suc sz) * varint_value cs)
          (Suc sz + length cs)" .
  have n: "num + uint (c AND 0x7f) * 2 ^ (7 * sz) + 2 ^ (7 * Suc sz) * varint_value cs
         = num + 2 ^ (7 * sz) * varint_value (c # cs)"
    by (simp add: power_add algebra_simps)
  from F [unfolded n] show ?case by simp
qed

lemma loop_last:
  "l AND 0x80 = 0 \<Longrightarrow> sz \<le> 5 \<Longrightarrow>
   readVarint_loop (pre @ l # post) (length pre) num sz =
     Return (Varint (sz + 1) (num + 2 ^ (7 * sz) * uint (l AND 0x7f)))"
  by (subst loop_step) simp_all

lemma loop_end:
  "length data \<le> off \<Longrightarrow> readVarint_loop data off num sz = Return (Varint sz 0)"
  by (subst readVarint_loop.simps) simp

lemma loop_cap:
  "off < length data \<Longrightarrow> 6 \<le> sz \<Longrightarrow>
   readVarint_loop data off num sz = Throw (AssertionError ''Number exceeds 2^53-1.'')"
  by (subst readVarint_loop.simps) (simp add: Let_def)

lemma varint_value_append:
  "varint_value (xs @ ys) = varint_value xs + 2 ^ (7 * length xs) * varint_value ys"
  by (induction xs) (simp_all add: power_add algebra_simps)

lemma varint_value_nonneg: "0 \<le> varint_value gs"
  by (induction gs) simp_all

lemma varint_value_bound: "varint_value gs < 2 ^ (7 * length gs)"
proof (induction gs)
  case Nil
  then show ?case by simp
next
  case (Cons b bs)
  have "uint (b AND 0x7f) \<le> 127" using low7_bound [of b] by simp
  moreover have "varint_value bs + 1 \<le> 2 ^ (7 * length bs)" using Cons.IH by simp
  then have "128 * (varint_value bs + 1) \<le> 128 * 2 ^ (7 * length bs)" by simp
  ultimately show ?case by (simp add: power_add algebra_simps)
qed

lemma readVarint_loop_ok:
  assumes "is_varint gs" and "length gs \<le> 6"
  shows "readVarint_loop (pre @ gs @ post) (length pre) 0 0
         = Return (Varint (length gs) (varint_value gs))"
proof -
  obtain cs l where gs: "gs = cs @ [l]"
    using assms(1) by (metis is_varint_def append_butlast_last_id)
  have cs: "continued cs" and l: "l AND 0x80 = 0"
    using assms(1) by (simp_all add: is_varint_def gs)
  have len: "length cs \<le> 5" using assms(2) by (simp add: gs)
  have "readVarint_loop (pre @ cs @ l # post) (length pre) 0 0 =
        readVarint_loop (pre @ cs @ l # post) (length pre + length cs)
          (0 + 2 ^ (7 * 0) * varint_value cs) (0 + length cs)"
    using len by (intro loop_cont [OF cs]) simp
  also have "\<dots> = readVarint_loop ((pre @ cs) @ l # post) (length (pre @ cs))
          (varint_value cs) (length cs)"
    by simp
  also have "\<dots> = Return (Varint (length cs + 1)
          (varint_value cs + 2 ^ (7 * length cs) * uint (l AND 0x7f)))"
    by (rule loop_last [OF l len])
  finally show ?thesis by (simp add: gs varint_value_append)
qed

lemma readVarint_ok:
  "is_varint gs \<Longrightarrow> length gs \<le> 6 \<Longrightarrow>
   readVarint (pre @ gs @ post) (length pre) = (Return (varint_value gs), length pre + length gs)"
  by (simp add: readVarint_def p_readVarint_def readVarint_loop_ok)

lemma readVarint_loop_long:
  assumes "continued cs" and "length cs = 6"
  shows "readVarint_loop (pre @ cs @ b # rest) (length pre) 0 0
         = Throw (AssertionError ''Number exceeds 2^53-1.'')"
proof -
  have "readVarint_loop (pre @ cs @ b # rest) (length pre) 0 0 =
        readVarint_loop (pre @ cs @ b # rest) (length pre + length cs)
          (0 + 2 ^ (7 * 0) * varint_value cs) (0 + length cs)"
    using assms(2) by (intro loop_cont [OF assms(1)]) simp
  also have "\<dots> = Throw (AssertionError ''Number exceeds 2^53-1.'')"
    using assms(2) by (intro loop_cap) simp_all
  finally show ?thesis .
qed

lemma readVarint_long:
  assumes "7 \<le> length gs" and "continued (take 6 gs)"
  shows "readVarint (pre @ gs @ post) (length pre)
         = (Throw (AssertionError ''Number exceeds 2^53-1.''), length pre)"
proof -
  obtain b rest where d: "drop 6 gs = b # rest"
    using assms(1) by (cases "drop 6 gs") simp_all
  have gs: "gs = take 6 gs @ b # rest" using d by (metis append_take_drop_id)
  have "readVarint_loop (pre @ take 6 gs @ b # (rest @ post)) (length pre) 0 0
        = Throw (AssertionError ''Number exceeds 2^53-1.'')"
    using assms by (intro readVarint_loop_long) simp_all
  moreover have "pre @ gs @ post = pre @ take 6 gs @ b # (rest @ post)"
    by (subst gs) simp
  ultimately have "readVarint_loop (pre @ gs @ post) (length pre) 0 0
        = Throw (AssertionError ''Number exceeds 2^53-1.'')"
    by (simp only:)
  then show ?thesis by (simp add: readVarint_def p_readVarint_def)
qed

lemma is_varint_long:
  assumes "is_varint gs" and "7 \<le> length gs"
  shows "continued (take 6 gs)"
proof -
  have "take 6 gs = take 6 (butlast gs)" using assms(2) by (simp add: take_butlast)
  then have "set (take 6 gs) \<subseteq> set (butlast gs)" by (simp add: set_take_subset)
  then show ?thesis using assms(1) by (auto simp: is_varint_def continued_def)
qed

lemma readVarint_truncated:
  assumes "continued cs" and "length cs \<le> 6"
  shows "readVarint (pre @ cs) (length pre) = (Return 0, length pre + length cs)"
proof -
  have "readVarint_loop (pre @ cs @ []) (length pre) 0 0 =
        readVarint_loop (pre @ cs @ []) (length pre + length cs)
          (0 + 2 ^ (7 * 0) * varint_value cs) (0 + length cs)"
    using assms(2) by (intro loop_cont [OF assms(1)]) simp
  also have "\<dots> = Return (Varint (0 + length cs) 0)"
    by (intro loop_end) simp
  finally show ?thesis by (simp add: readVarint_def p_readVarint_def)
qed

lemma readVarint_past_end:
  "length data \<le> off \<Longrightarrow> readVarint data off = (Return 0, off)"
  by (simp add: readVarint_def p_readVarint_def loop_end)

lemma is_varint_len: "is_varint gs \<Longrightarrow> 2 ^ 53 - 1 < varint_value gs \<Longrightarrow> 7 \<le> length gs"
proof (rule ccontr)
  assume v: "2 ^ 53 - 1 < varint_value gs" and "\<not> 7 \<le> length gs"
  then have "7 * length gs \<le> 49" by simp
  then have "(2::int) ^ (7 * length gs) \<le> 2 ^ 49" by (intro power_increasing) simp_all
  with varint_value_bound [of gs] have "varint_value gs < 2 ^ 49" by simp
  with v show False by simp
qed

text \<open>
  Claim C4, amended. \<open>readVarint\<close> succeeds on every well-formed varint of at most six
  groups, wherever it stands in the buffer: it returns the encoded value (below
  \<open>2^42\<close>) and leaves the cursor behind the last group. It fails with the assertion
  \<open>Number exceeds 2^53-1.\<close>, the cursor unmoved, on every well-formed varint of nine
  or more groups and on every one whose value exceeds \<open>2^53 - 1\<close>.
\<close>

theorem readVarint_group_cap:
  "is_varint gs \<Longrightarrow>
   (length gs \<le> 6 \<longrightarrow>
      readVarint (pre @ gs @ post) (length pre)
        = (Return (varint_value gs), length pre + length gs)) \<and>
   (9 \<le> length gs \<or> 2 ^ 53 - 1 < varint_value gs \<longrightarrow>
      readVarint (pre @ gs @ post) (length pre)
        = (Throw (AssertionError ''Number exceeds 2^53-1.''), length pre))"
proof (intro conjI impI)
  assume "is_varint gs" and "length gs \<le> 6"
  then show "readVarint (pre @ gs @ post) (length pre)
        = (Return (varint_value gs), length pre + length gs)"
    by (rule readVarint_ok)
next
  assume v: "is_varint gs" and "9 \<le> length gs \<or> 2 ^ 53 - 1 < varint_value gs"
  then have len: "7 \<le> length gs" using is_varint_len [OF v] by auto
  show "readVarint (pre @ gs @ post) (length pre)
        = (Throw (AssertionError ''Number exceeds 2^53-1.''), length pre)"
    by (rule readVarint_long [OF len is_varint_long [OF v len]])
qed

theorem readVarint_group_cap_witness:
  "readVarint [0xac, 0x02] 0 = (Return 300, 2) \<and>
   readVarint [0xff, 0xff, 0xff, 0xff, 0xff, 0xff, 0xff, 0xff, 0xff, 0x01] 0
     = (Throw (AssertionError ''Number exceeds 2^53-1.''), 0)"
proof -
  have v1: "is_varint [0xac, 0x02]" by (simp add: is_varint_def continued_def)
  have l1: "length [0xac, 0x02 :: byte] \<le> 6" by simp
  have v2: "is_varint [0xff, 0xff, 0xff, 0xff, 0xff, 0xff, 0xff, 0xff, 0xff, 0x01]"
    by (simp add: is_varint_def continued_def)
  have l2: "9 \<le> length [0xff, 0xff, 0xff, 0xff, 0xff, 0xff, 0xff, 0xff, 0xff, 0x01 :: byte] \<or>
      2 ^ 53 - 1 < varint_value [0xff, 0xff, 0xff, 0xff, 0xff, 0xff, 0xff, 0xff, 0xff, 0x01]"
    by simp
  have a: "readVarint ([] @ [0xac, 0x02] @ []) (length ([] :: buffer))
      = (Return (varint_value [0xac, 0x02]), length ([] :: buffer) + length [0xac, 0x02 :: byte])"
    by (rule readVarint_group_cap [OF v1, of "[]" "[]", THEN conjunct1, rule_format, OF l1])
  have b: "readVarint ([] @ [0xff, 0xff, 0xff, 0xff, 0xff, 0xff, 0xff, 0xff, 0xff, 0x01] @ [])
        (length ([] :: buffer))
      = (Throw (AssertionError ''Number exceeds 2^53-1.''), length ([] :: buffer))"
    by (rule readVarint_group_cap [OF v2, of "[]" "[]", THEN conjunct2, rule_format, OF l2])
  from a b show ?thesis by simp
qed

lemma nine_groups: "is_varint [0x80, 0x80, 0x80, 0x80, 0x80, 0x80, 0x80, 0x80, 0x01]"
  by (simp add: is_varint_def continued_def)

text \<open>
  The claim as stated, success on every encoding of up to nine groups, fails on the
  nine-group encoding of \<open>2^56\<close>.
\<close>

theorem readVarint_nine_groups_counterexample:
  "is_varint [0x80, 0x80, 0x80, 0x80, 0x80, 0x80, 0x80, 0x80, 0x01] \<and>
   length [0x80, 0x80, 0x80, 0x80, 0x80, 0x80, 0x80, 0x80, 0x01 :: byte] = 9 \<and>
   readVarint [0x80, 0x80, 0x80, 0x80, 0x80, 0x80, 0x80, 0x80, 0x01] 0
     = (Throw (AssertionError ''Number exceeds 2^53-1.''), 0)"
  by (simp add: nine_groups readVarint_def p_readVarint_def readVarint_loop.simps)

text \<open>
  Claim C5, amended. When the buffer ends inside a varint after at most six groups,
  each with its continuation bit set, or the varint starts at or past the end of the
  buffer, \<open>readVarint\<close> does not fail: it returns the value 0 and leaves the cursor at
  the end of the buffer (where it was, when it started at or past the end).
\<close>

theorem readVarint_truncated_zero:
  "(continued cs \<and> length cs \<le> 6 \<longrightarrow>
      readVarint (pre @ cs) (length pre) = (Return 0, length pre + length cs)) \<and>
   (length data \<le> off \<longrightarrow> readVarint data off = (Return 0, off))"
  by (simp add: readVarint_truncated readVarint_past_end)

theorem readVarint_truncated_zero_witness:
  "readVarint [0x01, 0x80, 0xff] 1 = (Return 0, 3) \<and> readVarint [0x01] 5 = (Return 0, 5)"
proof -
  have c: "continued [0x80, 0xff] \<and> length [0x80, 0xff :: byte] \<le> 6"
    by (simp add: continued_def)
  have a: "readVarint ([0x01] @ [0x80, 0xff]) (length [0x01 :: byte])
      = (Return 0, length [0x01 :: byte] + length [0x80, 0xff :: byte])"
    by (rule readVarint_truncated_zero [of "[0x80, 0xff]" "[0x01]", THEN conjunct1, rule_format, OF c])
  have l: "length [0x01 :: byte] \<le> 5" by simp
  have b: "readVarint [0x01] 5 = (Return 0, 5)"
    by (rule readVarint_truncated_zero [THEN conjunct2, rule_format, OF l])
  from a b show ?thesis by simp
qed

text \<open>
  The claim as stated, a hard failure on every truncated varint, fails on the one-byte
  buffer \<open>0x80\<close> and on the empty buffer: both reads return 0.
\<close>

theorem readVarint_truncated_counterexample:
  "readVarint [0x80] 0 = (Return 0, 1) \<and> readVarint [] 0 = (Return 0, 0)"
  by (simp add: readVarint_def p_readVarint_def readVarint_loop.simps)

subsection \<open>A field whose tag is not the expected one\<close>

text \<open>
  Claim C8, amended. When the tag decoded from the next field header differs from the
  expected tag: with the optional flag true, \<open>readField\<close> returns \<open>null\<close> and the
  cursor is back at its position before the read; with the flag false it fails with the
  assertion \<open>Non-optional field not present.\<close> and the cursor stays behind the header,
  where \<open>readVarint\<close> left it.
\<close>

theorem readField_tag_mismatch:
  "readVarint data off = (Return header, off1) \<and> ftag (newField header) \<noteq> tag \<longrightarrow>
   readField (Suc fuel) data off (Some tag) True = (Return None, off) \<and>
   readField (Suc fuel) data off (Some tag) False
     = (Throw (AssertionError ''Non-optional field not present.''), off1)"
  by (simp add: readField.simps(2) bind_r_def Let_def)

theorem readField_tag_mismatch_witness:
  "readField (Suc 0) [0x08, 0x01] 0 (Some 2) True = (Return None, 0) \<and>
   readField (Suc 0) [0x08, 0x01] 0 (Some 2) False
     = (Throw (AssertionError ''Non-optional field not present.''), 1)"
proof -
  have h: "readVarint [0x08, 0x01] 0 = (Return 8, 1) \<and> ftag (newField 8) \<noteq> 2"
    by (simp add: newField_def readVarint_def p_readVarint_def readVarint_loop.simps group_term_def)
  show ?thesis
    by (rule readField_tag_mismatch [of "[0x08, 0x01]" 0 8 1 2 0, rule_format, OF h])
qed

text \<open>
  The claim as stated has the cursor restored in the failing case too. On the buffer
  \<open>0x08 0x01\<close> (tag 1) read for tag 2 as a required field the call fails with the
  cursor at 1, not 0.
\<close>

theorem readField_required_mismatch_counterexample:
  "readVarint [0x08, 0x01] 0 = (Return 8, 1) \<and> ftag (newField 8) = 1 \<and>
   readField (Suc 0) [0x08, 0x01] 0 (Some 2) False
     = (Throw (AssertionError ''Non-optional field not present.''), 1)"
  by (simp add: readField.simps(2) bind_r_def Let_def newField_def
        readVarint_def p_readVarint_def readVarint_loop.simps group_term_def)

subsection \<open>Evaluating the codec on concrete bytes\<close>

lemma toString_from_utf8: "toString_utf8 (from_utf8 s) = s"
proof -
  have "char_of (unat (of_nat (of_char c) :: byte)) = c" for c :: char
  proof -
    have "unat (of_nat (of_char c) :: byte) = of_char c mod 256"
      by (simp add: unat_of_nat)
    then show ?thesis by simp
  qed
  then show ?thesis by (induction s) (simp_all add: toString_utf8_def from_utf8_def)
qed

lemma from_toString_utf8: "from_utf8 (toString_utf8 d) = d"
proof -
  have "(of_nat (of_char (char_of (unat b))) :: byte) = b" for b :: byte
  proof -
    have "unat b < 256" using unsigned_less [of b, where ?'a = nat] by simp
    then have "of_char (char_of (unat b)) = unat b" by simp
    then show ?thesis by simp
  qed
  then show ?thesis by (induction d) (simp_all add: toString_utf8_def from_utf8_def)
qed

lemma x509_sha256_bytes:
  "toString_utf8 [0x78, 0x35, 0x30, 0x39, 0x2b, 0x73, 0x68, 0x61, 0x32, 0x35, 0x36] = ''x509+sha256''"
proof -
  have "from_utf8 ''x509+sha256'' = [0x78, 0x35, 0x30, 0x39, 0x2b, 0x73, 0x68, 0x61, 0x32, 0x35, 0x36]"
    by (simp add: from_utf8_def)
  then show ?thesis using toString_from_utf8 [of "''x509+sha256''"] by simp
qed

lemmas reader_eval =
  readField_Suc payload_def bind_r_def newField_def set_size_def set_value_def set_data_def
  readVarint_def p_readVarint_def readVarint_loop.simps group_term_def Let_def
  readVarBytes_def readBytes_def nextTag_def left_def seek_def
  readFieldBytes_def readFieldString_def readFieldU64_def readFieldU32_def
  VARINT_def FIXED64_def DELIMITED_def START_GROUP_def END_GROUP_def FIXED32_def

lemmas writer_eval =
  writeFieldBytes_def writeFieldString_def writeFieldString_buf_def writeFieldU32_def
  writeFieldU64_def writeVarint_def bind_o_def render_def encode_groups_small
  VARINT_def DELIMITED_def

lemma encode_2_42: "encode_groups 4398046511104 = [0x80, 0x80, 0x80, 0x80, 0x80, 0x80, 0x01]"
  by (simp add: encode_groups.simps)

subsection \<open>Encoding, then decoding\<close>

text \<open>
  Claim C3, which the code does not meet. A \<open>PaymentDetails\<close> whose \<open>time\<close> is
  \<open>2^42 = 4398046511104\<close>, a safe integer that \<open>fromOptions\<close> accepts, is encoded in
  eight bytes (the header and a varint of seven groups), and decoding these bytes fails
  with the assertion \<open>Number exceeds 2^53-1.\<close> instead of yielding the value back.
\<close>

theorem PaymentDetails_time_2_42_not_decoded:
  "PaymentDetails_toRaw ((new_PaymentDetails 0)\<lparr>time := 4398046511104\<rparr>)
     = Return [0x18, 0x80, 0x80, 0x80, 0x80, 0x80, 0x80, 0x01] \<and>
   PaymentDetails_fromRaw_static (Suc fuel) now [0x18, 0x80, 0x80, 0x80, 0x80, 0x80, 0x80, 0x01]
     = Throw (AssertionError ''Number exceeds 2^53-1.'')"
proof
  show "PaymentDetails_toRaw ((new_PaymentDetails 0)\<lparr>time := 4398046511104\<rparr>)
     = Return [0x18, 0x80, 0x80, 0x80, 0x80, 0x80, 0x80, 0x01]"
    by (simp add: PaymentDetails_toRaw_def new_PaymentDetails_def writer_eval encode_2_42)
  show "PaymentDetails_fromRaw_static (Suc fuel) now [0x18, 0x80, 0x80, 0x80, 0x80, 0x80, 0x80, 0x01]
     = Throw (AssertionError ''Number exceeds 2^53-1.'')"
    by (simp add: PaymentDetails_fromRaw_static_def PaymentDetails_fromRaw_def
          PaymentDetails_outputs_loop.simps reader_eval)
qed

subsection \<open>Verification as a total predicate\<close>

lemma end_group_request_decoded:
  "PaymentRequest_fromRaw_static (Suc fuel) now
     [0x12, 0x0b, 0x78, 0x35, 0x30, 0x39, 0x2b, 0x73, 0x68, 0x61, 0x32, 0x35, 0x36,
      0x1a, 0x01, 0x0c, 0x22, 0x02, 0x18, 0x00, 0x2a, 0x01, 0x00]
   = Return end_group_request"
  by (simp add: PaymentRequest_fromRaw_static_def PaymentRequest_fromRaw_def
        new_PaymentRequest_def new_PaymentDetails_def PaymentDetails_fromRaw_def
        PaymentDetails_outputs_loop.simps reader_eval x509_sha256_bytes end_group_request_def)

lemma getChain_end_group:
  "getChain (Suc fuel) end_group_request = Throw (AssertionError ''Unexpected end group.'')"
  by (simp add: getChain_def end_group_request_def getChain_loop.simps reader_eval)

text \<open>
  Claim C2, which the code does not meet. On that request \<open>verify\<close> throws, whatever
  the external verifier does: \<open>getChain\<close> runs outside the \<open>try\<close> blocks of
  \<open>verify\<close>, and reading the certificate chain fails with the assertion
  \<open>Unexpected end group.\<close> \<open>verifyChain\<close>, which calls \<open>getChain\<close> inside its
  \<open>try\<close>, returns false on the same request.
\<close>

theorem verify_raises_on_end_group:
  "verify x509_verifySubject (Suc fuel) end_group_request
     = Throw (AssertionError ''Unexpected end group.'') \<and>
   verifyChain x509_verifyChain (Suc fuel) end_group_request = Return False"
proof
  have alg: "getAlgorithm end_group_request = Return (Algorithm ''x509'' ''sha256'')"
    by (simp add: getAlgorithm_def end_group_request_def)
  have sd: "signatureData end_group_request
      = (Return [0x12, 0x0b, 0x78, 0x35, 0x30, 0x39, 0x2b, 0x73, 0x68, 0x61, 0x32, 0x35, 0x36,
                 0x1a, 0x01, 0x0c, 0x22, 0x02, 0x18, 0x00, 0x2a, 0x00], end_group_request)"
    by (simp add: signatureData_def PaymentRequest_toRaw_def PaymentDetails_toRaw_def
          end_group_request_def writer_eval from_utf8_def)
  have p: "pkiType end_group_request = Some ''x509+sha256''"
    "signature end_group_request = Some [0x00]"
    by (simp_all add: end_group_request_def)
  show "verify x509_verifySubject (Suc fuel) end_group_request
     = Throw (AssertionError ''Unexpected end group.'')"
    by (simp add: verify_def p alg sd getChain_end_group bind_o_def)
  show "verifyChain x509_verifyChain (Suc fuel) end_group_request = Return False"
    by (simp add: verifyChain_def p getChain_end_group bind_o_def)
qed

text \<open>
  \<open>verifyChain\<close> never throws. It can fail to return, though: a \<open>START_GROUP\<close> header
  at the end of \<open>pkiData\<close> sends \<open>readField\<close> into its group loop, where every
  further read at the end of the buffer yields an empty varint field and never the
  \<open>END_GROUP\<close> the loop waits for.
\<close>

theorem verifyChain_never_throws: "verifyChain x509_verifyChain fuel r \<noteq> Throw e"
  by (simp add: verifyChain_def split: outcome.splits)

lemma readGroup_spins:
  "readGroup fuel [0x0b] 1 grp = (OutOfFuel, 1)"
proof (induction fuel arbitrary: grp)
  case 0
  show ?case by simp
next
  case (Suc fuel)
  show ?case
  proof (cases fuel)
    case 0
    then show ?thesis by (simp add: bind_r_def)
  next
    case (Suc n)
    have "readField (Suc n) [0x0b] 1 None False = (Return (Some (Field 0 0 0 0 None None)), 1)"
      by (simp add: reader_eval)
    then show ?thesis using Suc Suc.IH by (simp add: bind_r_def END_GROUP_def)
  qed
qed

text \<open>
  On a request whose \<open>pkiData\<close> is the single byte \<open>0x0b\<close> (a \<open>START_GROUP\<close>
  header with tag 1) \<open>verifyChain\<close> runs out of every recursion bound: the source's
  loop does not end.
\<close>

theorem verifyChain_start_group:
  "verifyChain x509_verifyChain fuel (end_group_request\<lparr>pkiData := Some [0x0b]\<rparr>) = OutOfFuel"
proof (cases fuel)
  case 0
  then show ?thesis
    by (simp add: verifyChain_def end_group_request_def getChain_def getChain_loop.simps
          nextTag_def left_def bind_r_def bind_o_def)
next
  case (Suc n)
  have "readField (Suc n) [0x0b] 0 None False = (OutOfFuel, 1)"
    using readGroup_spins [of n "[]"] by (simp add: reader_eval)
  then show ?thesis using Suc
    by (simp add: verifyChain_def end_group_request_def getChain_def getChain_loop.simps
          nextTag_def left_def bind_r_def bind_o_def)
qed

subsection \<open>The certificate chain\<close>

lemma uint_low7: "uint ((x :: byte) AND 0x7f) = uint x mod 128"
proof -
  have m: "(0x7f :: byte) = mask 7" by (simp add: mask_eq_exp_minus_1)
  have "uint (x AND mask 7) = uint (take_bit 7 x)" by (simp add: take_bit_eq_mask)
  also have "\<dots> = take_bit 7 (uint x)" by (simp add: unsigned_take_bit_eq)
  also have "\<dots> = uint x mod 128" by (simp add: take_bit_eq_mod)
  finally show ?thesis by (simp only: m)
qed

lemma continuation_bit: "((x :: byte) AND 0x80 \<noteq> 0) = (128 \<le> uint x)"
proof -
  have e: "(0x80 :: byte) = 2 ^ 7" by simp
  have "(x AND 2 ^ 7 = 0) = (\<not> bit x 7)" by (rule and_exp_eq_0_iff_not_bit)
  moreover have "bit x 7 = bit (uint x) 7" by (simp add: bit_uint_iff)
  moreover have "bit (uint x) 7 = (128 \<le> uint x)"
  proof -
    have "uint x < 256" using uint_lt2p [of x] by simp
    moreover have "0 \<le> uint x" by simp
    ultimately have "uint x div 128 = (if 128 \<le> uint x then 1 else 0)" by auto
    then show ?thesis by (simp add: bit_iff_odd)
  qed
  ultimately show ?thesis by (simp only: e) blast
qed

lemma or_80_low7: "((x :: byte) OR 0x80) AND 0x7f = x AND 0x7f"
  by (simp add: bit.conj_disj_distrib2)

lemma uint_of_nat_byte: "n < 256 \<Longrightarrow> uint (of_nat n :: byte) = int n"
  by (simp add: uint_nat unat_of_nat)

lemma encode_groups_is_varint: "is_varint (encode_groups n)"
proof (induction n rule: encode_groups.induct)
  case (1 n)
  show ?case
  proof (cases "n < 128")
    case True
    then have "\<not> 128 \<le> uint (of_nat n :: byte)" by (simp add: uint_of_nat_byte)
    then have "(of_nat n :: byte) AND 0x80 = 0" using continuation_bit [of "of_nat n"] by simp
    then show ?thesis using True by (simp add: encode_groups.simps [of n] is_varint_def continued_def)
  next
    case False
    then have IH: "is_varint (encode_groups (n div 128))" using 1 by simp
    then have ne: "encode_groups (n div 128) \<noteq> []" by (simp add: is_varint_def)
    show ?thesis using False IH ne
      by (simp add: encode_groups.simps [of n] is_varint_def continued_def)
  qed
qed

lemma encode_groups_value: "varint_value (encode_groups n) = int n"
proof (induction n rule: encode_groups.induct)
  case (1 n)
  show ?case
  proof (cases "n < 128")
    case True
    then show ?thesis
      by (simp add: encode_groups.simps [of n] uint_low7 uint_of_nat_byte)
  next
    case False
    then have IH: "varint_value (encode_groups (n div 128)) = int (n div 128)" using 1 by simp
    have "uint ((of_nat (n mod 128) OR 0x80 :: byte) AND 0x7f) = int (n mod 128)"
      by (simp only: or_80_low7 uint_low7) (simp add: uint_of_nat_byte)
    then show ?thesis using False IH
      by (simp add: encode_groups.simps [of n] zmod_int zdiv_int)
  qed
qed

lemma encode_groups_length: "n < 2 ^ (7 * k) \<Longrightarrow> 0 < k \<Longrightarrow> length (encode_groups n) \<le> k"
proof (induction n arbitrary: k rule: encode_groups.induct)
  case (1 n)
  show ?case
  proof (cases "n < 128")
    case True
    then show ?thesis using "1.prems" by (simp add: encode_groups.simps [of n])
  next
    case False
    obtain j where k: "k = Suc j" using "1.prems"(2) by (cases k) auto
    have "j \<noteq> 0" using False "1.prems"(1) k by (cases j) auto
    moreover have "n div 128 < 2 ^ (7 * j)"
      using "1.prems"(1) k by (simp add: power_add less_mult_imp_div_less mult.commute)
    ultimately have "length (encode_groups (n div 128)) \<le> j"
      using "1.IH" [OF False, of j] by simp
    then show ?thesis using False k by (simp add: encode_groups.simps [of n])
  qed
qed

lemma writeFieldBytes_cert:
  "length c < 2 ^ 32 \<Longrightarrow> writeFieldBytes 1 c bw = Return (bw @ cert_field c)"
proof -
  assume "length c < 2 ^ 32"
  then have "int (length c) < 2 ^ 32" by (metis of_nat_less_iff of_nat_numeral of_nat_power)
  then have "int (length c) < 2 ^ 63" by simp
  then show ?thesis
    by (simp add: writeFieldBytes_def writeVarint_def bind_o_def DELIMITED_def
          encode_groups_small cert_field_def)
qed

lemma setChain_loop_bytes:
  "\<forall>c \<in> set certs. length c < 2 ^ 32 \<Longrightarrow>
   setChain_loop certs bw = Return (bw @ chain_bytes certs)"
  by (induction certs arbitrary: bw)
     (simp_all add: chain_bytes_def writeFieldBytes_cert bind_o_def)

lemma is_varint_single: "is_varint [0x0a]"
  by (simp add: is_varint_def continued_def)

lemma readVarint_header_cert:
  "readVarint (pre @ cert_field c @ post) (length pre) = (Return 10, length pre + 1)"
  using readVarint_ok [of "[0x0a]" pre "encode_groups (length c) @ c @ post"]
  by (simp add: is_varint_single cert_field_def)

lemma readVarBytes_cert:
  assumes "length c < 2 ^ 32"
  shows "readVarBytes (pre @ cert_field c @ post) (length pre + 1)
         = (Return c, length pre + length (cert_field c))"
proof -
  let ?gs = "encode_groups (length c)"
  have "length c < 2 ^ (7 * 6)" using assms by simp
  then have len: "length ?gs \<le> 6" by (rule encode_groups_length) simp
  have rv: "readVarint ((pre @ [0x0a]) @ ?gs @ (c @ post)) (length (pre @ [0x0a]))
      = (Return (varint_value ?gs), length (pre @ [0x0a]) + length ?gs)"
    by (rule readVarint_ok [OF encode_groups_is_varint len])
  have lt: "int (length c) < 2 ^ 32"
    using assms by (metis of_nat_less_iff of_nat_numeral of_nat_power)
  have d: "drop (Suc (length pre + length ?gs)) (pre @ 0x0a # ?gs @ c @ post) = c @ post"
    by simp
  show ?thesis
    using rv lt
    by (simp add: readVarBytes_def bind_r_def cert_field_def encode_groups_value readBytes_def d)
qed

lemma cert_field_length: "0 < length (cert_field c)"
  by (simp add: cert_field_def)

lemma readField_cert:
  assumes "length c < 2 ^ 32" and "tag = None \<or> tag = Some 1"
  shows "readField (Suc fuel) (pre @ cert_field c @ post) (length pre) tag opt
         = (Return (Some (Field 1 2 (int (length (cert_field c))) 0 (Some c) None)),
            length pre + length (cert_field c))"
proof -
  have nf: "newField 10 = Field 1 2 0 0 None None" by (simp add: newField_def)
  have tg: "\<not> (tag \<noteq> None \<and> Some (ftag (newField 10)) \<noteq> tag)"
    using assms(2) by (auto simp: nf)
  have p: "payload fuel (pre @ cert_field c @ post) (Suc (length pre)) (newField 10)
      = (Return (Field 1 2 0 0 (Some c) None), length pre + length (cert_field c))"
    using readVarBytes_cert [OF assms(1), of pre post]
    by (simp add: payload_def nf VARINT_def FIXED64_def DELIMITED_def bind_r_def set_data_def)
  show ?thesis
    unfolding readField_Suc readVarint_header_cert
    using tg by (simp add: bind_r_def p set_size_def)
qed

lemma nextTag_cert:
  assumes "length c < 2 ^ 32"
  shows "nextTag (Suc fuel) (pre @ cert_field c @ post) (length pre) = (Return 1, length pre)"
proof -
  have "int (length (cert_field c)) + int (length post) \<noteq> 0"
    using cert_field_length [of c] by linarith
  then show ?thesis
    by (simp add: nextTag_def left_def bind_r_def readField_cert [OF assms] seek_def)
qed

lemma nextTag_end: "nextTag fuel data (length data) = (Return (- 1), length data)"
  by (simp add: nextTag_def left_def bind_r_def)

lemma readFieldBytes_cert:
  assumes "length c < 2 ^ 32"
  shows "readFieldBytes (Suc fuel) (pre @ cert_field c @ post) (length pre) 1 False
         = (Return (Some c), length pre + length (cert_field c))"
  by (simp add: readFieldBytes_def bind_r_def readField_cert [OF assms])

lemma getChain_loop_chain_bytes:
  "\<forall>c \<in> set certs. length c < 2 ^ 32 \<Longrightarrow>
   getChain_loop (Suc fuel) (pre @ chain_bytes certs) (length pre) acc
     = (Return (acc @ map Some certs), length pre + length (chain_bytes certs))"
proof (induction certs arbitrary: pre acc)
  case Nil
  show ?case
    using nextTag_end [of "Suc fuel" pre]
    by (subst getChain_loop.simps) (simp add: chain_bytes_def bind_r_def)
next
  case (Cons c certs)
  have c: "length c < 2 ^ 32" and rest: "\<forall>c \<in> set certs. length c < 2 ^ 32"
    using Cons.prems by simp_all
  have data: "pre @ chain_bytes (c # certs) = pre @ cert_field c @ chain_bytes certs"
    by (simp add: chain_bytes_def)
  have IH: "getChain_loop (Suc fuel) ((pre @ cert_field c) @ chain_bytes certs)
        (length (pre @ cert_field c)) (acc @ [Some c])
      = (Return ((acc @ [Some c]) @ map Some certs),
         length (pre @ cert_field c) + length (chain_bytes certs))"
    by (rule Cons.IH [OF rest])
  show ?case
    unfolding data
    by (subst getChain_loop.simps)
       (use IH in \<open>simp add: nextTag_cert [OF c] readFieldBytes_cert [OF c] bind_r_def
          chain_bytes_def\<close>)
qed

text \<open>
  Claim C6. For every sequence of certificates (\<open>Buffer\<close>s, each shorter than
  \<open>2^32\<close> bytes), \<open>setChain\<close> returns, and \<open>getChain\<close> on the request it leaves
  returns the same certificates in the same order, none of them \<open>null\<close>. And
  \<open>getChain\<close> returns the empty sequence whenever \<open>pkiData\<close> is absent.
\<close>

theorem getChain_setChain:
  "((\<forall>c \<in> set certs. length c < 2 ^ 32) \<longrightarrow>
      (\<exists>r'. setChain certs r = Return r' \<and>
            getChain (Suc fuel) r' = Return (map Some certs))) \<and>
   (pkiData r = None \<longrightarrow> getChain fuel r = Return [])"
proof (intro conjI impI)
  assume h: "\<forall>c \<in> set certs. length c < 2 ^ 32"
  have s: "setChain certs r = Return (r\<lparr>pkiData := Some (chain_bytes certs)\<rparr>)"
    using setChain_loop_bytes [OF h, of "[]"] by (simp add: setChain_def bind_o_def render_def)
  have "getChain_loop (Suc fuel) ([] @ chain_bytes certs) (length ([] :: buffer)) []
      = (Return ([] @ map Some certs), length ([] :: buffer) + length (chain_bytes certs))"
    by (rule getChain_loop_chain_bytes [OF h])
  then have "getChain (Suc fuel) (r\<lparr>pkiData := Some (chain_bytes certs)\<rparr>)
      = Return (map Some certs)"
    by (simp add: getChain_def)
  with s show "\<exists>r'. setChain certs r = Return r' \<and>
            getChain (Suc fuel) r' = Return (map Some certs)"
    by blast
next
  assume "pkiData r = None"
  then show "getChain fuel r = Return []" by (simp add: getChain_def)
qed

theorem getChain_setChain_witness:
  "(\<exists>r'. setChain [[0x01, 0x02], []] (new_PaymentRequest 0) = Return r' \<and>
         getChain (Suc 0) r' = Return [Some [0x01, 0x02], Some []]) \<and>
   getChain 0 (new_PaymentRequest 0) = Return []"
proof -
  have h: "\<forall>c \<in> set [[0x01, 0x02], [] :: buffer]. length c < 2 ^ 32" by simp
  have n: "pkiData (new_PaymentRequest 0) = None" by (simp add: new_PaymentRequest_def)
  have a: "\<exists>r'. setChain [[0x01, 0x02], []] (new_PaymentRequest 0) = Return r' \<and>
         getChain (Suc 0) r' = Return (map Some [[0x01, 0x02], []])"
    by (rule getChain_setChain [of "[[0x01, 0x02], []]" "new_PaymentRequest 0" 0,
          THEN conjunct1, THEN mp, OF h])
  have b: "getChain 0 (new_PaymentRequest 0) = Return []"
    by (rule getChain_setChain [of "[]" "new_PaymentRequest 0" 0,
          THEN conjunct2, THEN mp, OF n])
  from a b show ?thesis by simp
qed

subsection \<open>Round trip within the reader's range\<close>

lemma uint_hdr: "0 \<le> t \<Longrightarrow> t < 16 \<Longrightarrow> 0 \<le> w \<Longrightarrow> w < 8 \<Longrightarrow> uint (hdr t w) = t * 8 + w"
proof -
  assume a: "0 \<le> t" "t < 16" "0 \<le> w" "w < 8"
  have "uint (word_of_int (t * 8 + w) :: byte) = (t * 8 + w) mod 2 ^ LENGTH(8)"
    by (rule uint_word_of_int)
  also have "\<dots> = t * 8 + w" using a by simp
  finally show ?thesis by (simp only: hdr_def)
qed

lemma encode_header:
  assumes "0 \<le> t" "t < 16" "0 \<le> w" "w < 8"
  shows "encode_groups (nat (t * 8 + w)) = [hdr t w]"
proof -
  have "nat (t * 8 + w) < 128" using assms by simp
  moreover have "(of_nat (nat (t * 8 + w)) :: byte) = word_of_int (t * 8 + w)"
    using assms by simp
  ultimately show ?thesis by (simp add: encode_groups_small hdr_def)
qed

lemma writeVarint_nat: "n < 2 ^ 63 \<Longrightarrow> writeVarint (int n) bw = Return (bw @ encode_groups n)"
proof -
  assume "n < 2 ^ 63"
  then have "int n < 2 ^ 63" by (metis of_nat_less_iff of_nat_numeral of_nat_power)
  then show ?thesis by (simp add: writeVarint_def)
qed

lemma writeVarint_header:
  assumes "0 \<le> t" "t < 16" "0 \<le> w" "w < 8"
  shows "writeVarint (t * 8 + w) bw = Return (bw @ [hdr t w])"
  using assms encode_header [OF assms] by (simp add: writeVarint_def)

lemma writeFieldU64_bytes:
  assumes "small_tag t" "0 \<le> v" "v < 2 ^ 63"
  shows "writeFieldU64 t v bw = Return (bw @ vfield t (nat v))"
proof -
  have h: "writeVarint (t * 8 + 0) bw = Return (bw @ [hdr t 0])"
    using assms(1) by (intro writeVarint_header) (simp_all add: small_tag_def)
  show ?thesis
    using h assms(2,3) by (simp add: writeFieldU64_def VARINT_def bind_o_def writeVarint_def vfield_def)
qed

lemma writeFieldBytes_bytes:
  assumes "small_tag t" "length d < 2 ^ 32"
  shows "writeFieldBytes t d bw = Return (bw @ dfield t d)"
proof -
  have h: "writeVarint (t * 8 + 2) bw = Return (bw @ [hdr t 2])" for bw
    using assms(1) by (intro writeVarint_header) (simp_all add: small_tag_def)
  have "length d < 2 ^ 63" using assms(2) by (rule less_trans) simp
  then show ?thesis
    using h by (simp add: writeFieldBytes_def DELIMITED_def bind_o_def writeVarint_nat dfield_def)
qed

lemma is_varint_hdr:
  assumes "0 \<le> t" "t < 16" "0 \<le> w" "w < 8"
  shows "is_varint [hdr t w]" and "varint_value [hdr t w] = t * 8 + w"
proof -
  have u: "uint (hdr t w) = t * 8 + w" by (rule uint_hdr [OF assms])
  have "\<not> 128 \<le> uint (hdr t w)" using u assms by simp
  then have "hdr t w AND 0x80 = 0" using continuation_bit [of "hdr t w"] by simp
  then show "is_varint [hdr t w]" by (simp add: is_varint_def continued_def)
  show "varint_value [hdr t w] = t * 8 + w" using u assms by (simp add: uint_low7)
qed

lemma readVarint_hdr:
  assumes "0 \<le> t" "t < 16" "0 \<le> w" "w < 8"
  shows "readVarint (pre @ hdr t w # post) (length pre) = (Return (t * 8 + w), Suc (length pre))"
  using readVarint_ok [OF is_varint_hdr(1) [OF assms], of pre post] is_varint_hdr(2) [OF assms]
  by simp

lemma newField_hdr:
  assumes "0 \<le> t" "t < 16" "0 \<le> w" "w < 8"
  shows "newField (t * 8 + w) = Field t w 0 0 None None"
proof -
  have "(t * 8 + w) mod 2 ^ 32 = t * 8 + w" using assms by simp
  moreover have "(t * 8 + w) div 8 = t" using assms by simp
  moreover have "(t * 8 + w) mod 8 = w" using assms by simp
  ultimately show ?thesis by (simp add: newField_def)
qed

lemma readVarint_encoded:
  assumes "n < 2 ^ 42"
  shows "readVarint (pre @ encode_groups n @ post) (length pre)
         = (Return (int n), length pre + length (encode_groups n))"
proof -
  have "n < 2 ^ (7 * 6)" using assms by simp
  then have len: "length (encode_groups n) \<le> 6" by (rule encode_groups_length) simp
  show ?thesis
    using readVarint_ok [OF encode_groups_is_varint len, of pre post]
    by (simp add: encode_groups_value)
qed

lemma vfield_length: "0 < length (vfield t v)" by (simp add: vfield_def)
lemma dfield_length: "0 < length (dfield t d)" by (simp add: dfield_def)

lemma readField_vfield:
  assumes "small_tag t" and "v < 2 ^ 42" and "tag = None \<or> tag = Some t"
  shows "readField (Suc fuel) (pre @ vfield t v @ post) (length pre) tag opt
         = (Return (Some (Field t 0 (int (length (vfield t v))) (int v) None None)),
            length pre + length (vfield t v))"
proof -
  have t: "0 \<le> t" "t < 16" using assms(1) by (simp_all add: small_tag_def)
  have rh: "readVarint (pre @ vfield t v @ post) (length pre) = (Return (t * 8), Suc (length pre))"
    using readVarint_hdr [OF t, of 0 pre "encode_groups v @ post"] by (simp add: vfield_def)
  have nf: "newField (t * 8) = Field t 0 0 0 None None"
    using newField_hdr [OF t, of 0] by simp
  have tg: "\<not> (tag \<noteq> None \<and> Some (ftag (newField (t * 8))) \<noteq> tag)"
    using assms(3) by (auto simp: nf)
  have rv: "readVarint ((pre @ [hdr t 0]) @ encode_groups v @ post) (length (pre @ [hdr t 0]))
      = (Return (int v), length (pre @ [hdr t 0]) + length (encode_groups v))"
    by (rule readVarint_encoded [OF assms(2)])
  have p: "payload fuel (pre @ vfield t v @ post) (Suc (length pre)) (newField (t * 8))
      = (Return (Field t 0 0 (int v) None None), length pre + length (vfield t v))"
    using rv by (simp add: payload_def nf VARINT_def bind_r_def set_value_def vfield_def)
  show ?thesis
    unfolding readField_Suc rh
    using tg by (simp add: bind_r_def p set_size_def)
qed

lemma readField_dfield:
  assumes "small_tag t" and "length d < 2 ^ 32" and "tag = None \<or> tag = Some t"
  shows "readField (Suc fuel) (pre @ dfield t d @ post) (length pre) tag opt
         = (Return (Some (Field t 2 (int (length (dfield t d))) 0 (Some d) None)),
            length pre + length (dfield t d))"
proof -
  have t: "0 \<le> t" "t < 16" using assms(1) by (simp_all add: small_tag_def)
  have rh: "readVarint (pre @ dfield t d @ post) (length pre) = (Return (t * 8 + 2), Suc (length pre))"
    using readVarint_hdr [OF t, of 2 pre "encode_groups (length d) @ d @ post"]
    by (simp add: dfield_def)
  have nf: "newField (t * 8 + 2) = Field t 2 0 0 None None"
    by (rule newField_hdr [OF t]) simp_all
  have tg: "\<not> (tag \<noteq> None \<and> Some (ftag (newField (t * 8 + 2))) \<noteq> tag)"
    using assms(3) by (auto simp: nf)
  have "length d < 2 ^ 42" using assms(2) by (rule less_trans) simp
  then have rv: "readVarint ((pre @ [hdr t 2]) @ encode_groups (length d) @ (d @ post))
        (length (pre @ [hdr t 2]))
      = (Return (int (length d)), length (pre @ [hdr t 2]) + length (encode_groups (length d)))"
    by (rule readVarint_encoded)
  have lt: "int (length d) < 2 ^ 32"
    using assms(2) by (metis of_nat_less_iff of_nat_numeral of_nat_power)
  have dr: "drop (Suc (length pre + length (encode_groups (length d))))
              (pre @ hdr t 2 # encode_groups (length d) @ d @ post) = d @ post"
    by simp
  have p: "payload fuel (pre @ dfield t d @ post) (Suc (length pre)) (newField (t * 8 + 2))
      = (Return (Field t 2 0 0 (Some d) None), length pre + length (dfield t d))"
    using rv lt
    by (simp add: payload_def nf VARINT_def FIXED64_def DELIMITED_def bind_r_def set_data_def
          dfield_def readVarBytes_def readBytes_def dr)
  show ?thesis
    unfolding readField_Suc rh
    using tg by (simp add: bind_r_def p set_size_def)
qed

lemma readField_absent:
  assumes "no_field t post" and "t \<noteq> 0"
  shows "readField (Suc fuel) (pre @ post) (length pre) (Some t) True = (Return None, length pre)"
proof (cases "post = []")
  case True
  have "readVarint pre (length pre) = (Return 0, length pre)"
    by (rule readVarint_past_end) simp
  moreover have "ftag (newField 0) = 0" by (simp add: newField_def)
  ultimately show ?thesis using True assms(2) by (simp add: readField_Suc bind_r_def)
next
  case False
  then obtain t' w rest where post: "post = hdr t' w # rest" and ne: "t' \<noteq> t"
    and b: "0 \<le> t'" "t' < 16" "0 \<le> w" "w < 8"
    using assms(1) by (auto simp: no_field_def)
  have "readVarint (pre @ hdr t' w # rest) (length pre) = (Return (t' * 8 + w), Suc (length pre))"
    by (rule readVarint_hdr [OF b])
  moreover have "ftag (newField (t' * 8 + w)) = t'" by (simp add: newField_hdr [OF b])
  ultimately show ?thesis using ne by (simp add: post readField_Suc bind_r_def)
qed

lemma readFieldU64_vfield:
  assumes "small_tag t" and "v < 2 ^ 42" and "data = pre @ vfield t v @ post" and "off = length pre"
  shows "readFieldU64 (Suc fuel) data off t opt = (Return (int v), off + length (vfield t v))"
  unfolding assms(3,4) readFieldU64_def
  by (simp add: readField_vfield [OF assms(1,2)] bind_r_def VARINT_def)

lemma readFieldU32_vfield:
  assumes "small_tag t" and "v < 2 ^ 42" and "data = pre @ vfield t v @ post" and "off = length pre"
  shows "readFieldU32 (Suc fuel) data off t opt = (Return (int v), off + length (vfield t v))"
  unfolding assms(3,4) readFieldU32_def
  by (simp add: readField_vfield [OF assms(1,2)] bind_r_def VARINT_def)

lemma readFieldBytes_dfield:
  assumes "small_tag t" and "length d < 2 ^ 32" and "data = pre @ dfield t d @ post"
    and "off = length pre"
  shows "readFieldBytes (Suc fuel) data off t opt = (Return (Some d), off + length (dfield t d))"
  unfolding assms(3,4) readFieldBytes_def
  by (simp add: readField_dfield [OF assms(1,2)] bind_r_def)

lemma readFieldString_dfield:
  assumes "small_tag t" and "length d < 2 ^ 32" and "data = pre @ dfield t d @ post"
    and "off = length pre"
  shows "readFieldString (Suc fuel) data off t opt
         = (Return (Some (toString_utf8 d)), off + length (dfield t d))"
  unfolding assms(3,4) readFieldString_def
  by (simp add: readField_dfield [OF assms(1,2)] bind_r_def)

lemma readFieldU64_absent:
  assumes "no_field t post" and "t \<noteq> 0" and "data = pre @ post" and "off = length pre"
  shows "readFieldU64 (Suc fuel) data off t True = (Return (- 1), off)"
  unfolding assms(3,4) readFieldU64_def
  by (simp add: readField_absent [OF assms(1,2)] bind_r_def)

lemma readFieldU32_absent:
  assumes "no_field t post" and "t \<noteq> 0" and "data = pre @ post" and "off = length pre"
  shows "readFieldU32 (Suc fuel) data off t True = (Return (- 1), off)"
  unfolding assms(3,4) readFieldU32_def
  by (simp add: readField_absent [OF assms(1,2)] bind_r_def)

lemma readFieldBytes_absent:
  assumes "no_field t post" and "t \<noteq> 0" and "data = pre @ post" and "off = length pre"
  shows "readFieldBytes (Suc fuel) data off t True = (Return None, off)"
  unfolding assms(3,4) readFieldBytes_def
  by (simp add: readField_absent [OF assms(1,2)] bind_r_def)

lemma readFieldString_absent:
  assumes "no_field t post" and "t \<noteq> 0" and "data = pre @ post" and "off = length pre"
  shows "readFieldString (Suc fuel) data off t True = (Return None, off)"
  unfolding assms(3,4) readFieldString_def
  by (simp add: readField_absent [OF assms(1,2)] bind_r_def)

lemma nextTag_vfield:
  assumes "small_tag t" and "v < 2 ^ 42" and "data = pre @ vfield t v @ post" and "off = length pre"
  shows "nextTag (Suc fuel) data off = (Return t, off)"
proof -
  have "int (length (vfield t v)) + int (length post) \<noteq> 0"
    using vfield_length [of t v] by linarith
  then show ?thesis
    unfolding assms(3,4)
    by (simp add: nextTag_def left_def bind_r_def readField_vfield [OF assms(1,2)] seek_def)
qed

lemma nextTag_dfield:
  assumes "small_tag t" and "length d < 2 ^ 32" and "data = pre @ dfield t d @ post"
    and "off = length pre"
  shows "nextTag (Suc fuel) data off = (Return t, off)"
proof -
  have "int (length (dfield t d)) + int (length post) \<noteq> 0"
    using dfield_length [of t d] by linarith
  then show ?thesis
    unfolding assms(3,4)
    by (simp add: nextTag_def left_def bind_r_def readField_dfield [OF assms(1,2)] seek_def)
qed

lemma starts_from_no_field:
  assumes "starts_from (t + 1) bs" and "0 \<le> t"
  shows "no_field t bs"
proof (cases "bs = []")
  case True
  then show ?thesis by (simp add: no_field_def)
next
  case False
  then obtain t' w rest where bs: "bs = hdr t' w # rest" and b: "t + 1 \<le> t'" "t' < 16" "0 \<le> w" "w < 8"
    using assms(1) by (auto simp: starts_from_def)
  have "bs = hdr t' w # rest \<and> t' \<noteq> t \<and> 0 \<le> t' \<and> t' < 16 \<and> 0 \<le> w \<and> w < 8"
    using bs b assms(2) by simp
  then show ?thesis unfolding no_field_def by blast
qed

lemma starts_from_Nil: "starts_from t []"
  by (simp add: starts_from_def)

lemma starts_from_vfield:
  assumes "t \<le> t'" and "t' < 16"
  shows "starts_from t (vfield t' v @ post)"
proof -
  have "vfield t' v @ post = hdr t' 0 # (encode_groups v @ post) \<and> t \<le> t' \<and> t' < 16 \<and>
        (0::int) \<le> 0 \<and> (0::int) < 8"
    using assms by (simp add: vfield_def)
  then show ?thesis unfolding starts_from_def by blast
qed

lemma starts_from_dfield:
  assumes "t \<le> t'" and "t' < 16"
  shows "starts_from t (dfield t' d @ post)"
proof -
  have "dfield t' d @ post = hdr t' 2 # (encode_groups (length d) @ d @ post) \<and> t \<le> t' \<and>
        t' < 16 \<and> (0::int) \<le> 2 \<and> (2::int) < 8"
    using assms by (simp add: dfield_def)
  then show ?thesis unfolding starts_from_def by blast
qed

lemma starts_from_opt_d:
  "t \<le> t' \<Longrightarrow> t' < 16 \<Longrightarrow> starts_from t post \<Longrightarrow> starts_from t (opt_d t' x @ post)"
  by (cases x) (simp_all add: opt_d_def starts_from_dfield)

lemma starts_from_opt_s:
  "t \<le> t' \<Longrightarrow> t' < 16 \<Longrightarrow> starts_from t post \<Longrightarrow> starts_from t (opt_s t' x @ post)"
  by (cases x) (simp_all add: opt_s_def starts_from_dfield)

lemma starts_from_opt_v:
  "t \<le> t' \<Longrightarrow> t' < 16 \<Longrightarrow> starts_from t post \<Longrightarrow> starts_from t (opt_v t' v @ post)"
  by (simp add: opt_v_def starts_from_vfield)

lemma length_from_utf8: "length (from_utf8 str) = length str"
  by (simp add: from_utf8_def)

lemma readFieldBytes_opt:
  assumes "small_tag t" and "\<forall>d. x = Some d \<longrightarrow> length d < 2 ^ 32" and "starts_from (t + 1) post"
    and "data = pre @ opt_d t x @ post" and "off = length pre"
  shows "readFieldBytes (Suc fuel) data off t True = (Return x, off + length (opt_d t x))"
proof (cases x)
  case None
  have "no_field t post" using assms(1,3) by (intro starts_from_no_field) (simp_all add: small_tag_def)
  moreover have "t \<noteq> 0" using assms(1) by (simp add: small_tag_def)
  ultimately show ?thesis
    using assms(4,5) None by (simp add: readFieldBytes_absent [of t post _ pre] opt_d_def)
next
  case (Some d)
  then have "length d < 2 ^ 32" using assms(2) by simp
  then show ?thesis
    using assms(1,4,5) Some by (simp add: readFieldBytes_dfield [of t d _ pre post] opt_d_def)
qed

lemma readFieldString_opt:
  assumes "small_tag t" and "\<forall>str. x = Some str \<longrightarrow> length str < 2 ^ 32"
    and "starts_from (t + 1) post"
    and "data = pre @ opt_s t x @ post" and "off = length pre"
  shows "readFieldString (Suc fuel) data off t True = (Return x, off + length (opt_s t x))"
proof (cases x)
  case None
  have "no_field t post" using assms(1,3) by (intro starts_from_no_field) (simp_all add: small_tag_def)
  moreover have "t \<noteq> 0" using assms(1) by (simp add: small_tag_def)
  ultimately show ?thesis
    using assms(4,5) None by (simp add: readFieldString_absent [of t post _ pre] opt_s_def)
next
  case (Some str)
  then have "length (from_utf8 str) < 2 ^ 32" using assms(2) by (simp add: length_from_utf8)
  then show ?thesis
    using assms(1,4,5) Some
    by (simp add: readFieldString_dfield [of t "from_utf8 str" _ pre post] opt_s_def
          toString_from_utf8)
qed

lemma readFieldU64_opt:
  assumes "small_tag t" and "v = - 1 \<or> (0 \<le> v \<and> v < 2 ^ 42)" and "starts_from (t + 1) post"
    and "data = pre @ opt_v t v @ post" and "off = length pre"
  shows "readFieldU64 (Suc fuel) data off t True = (Return v, off + length (opt_v t v))"
proof (cases "v = - 1")
  case True
  have "no_field t post" using assms(1,3) by (intro starts_from_no_field) (simp_all add: small_tag_def)
  moreover have "t \<noteq> 0" using assms(1) by (simp add: small_tag_def)
  ultimately show ?thesis
    using assms(4,5) True by (simp add: readFieldU64_absent [of t post _ pre] opt_v_def)
next
  case False
  then have v: "0 \<le> v" "v < 2 ^ 42" using assms(2) by simp_all
  then have "nat v < 2 ^ 42" by (simp add: nat_less_iff)
  then show ?thesis
    using assms(1,4,5) False v
    by (simp add: readFieldU64_vfield [of t "nat v" _ pre post] opt_v_def)
qed

lemma small_tags: "small_tag 1" "small_tag 2" "small_tag 3" "small_tag 4" "small_tag 5"
  "small_tag 6" "small_tag 7"
  by (simp_all add: small_tag_def)

lemma encode_groups_le_6: "n < 2 ^ 42 \<Longrightarrow> length (encode_groups n) \<le> 6"
proof -
  assume "n < 2 ^ 42"
  then have "n < 2 ^ (7 * 6)" by simp
  then show ?thesis by (rule encode_groups_length) simp
qed

lemma out_bytes_length:
  assumes "valid_output output"
  shows "length (out_bytes output) < 2 ^ 32"
proof -
  obtain s where s: "script output = Some s" "length s < 2 ^ 31"
    using assms by (auto simp: valid_output_def)
  have v: "nat (ovalue output) < 2 ^ 42" using assms by (simp add: valid_output_def nat_less_iff)
  have "length s < 2 ^ 42" using s(2) by (rule less_trans) simp
  then have "length (encode_groups (length s)) \<le> 6" by (rule encode_groups_le_6)
  moreover have "length (encode_groups (nat (ovalue output))) \<le> 6"
    using v by (rule encode_groups_le_6)
  ultimately have "length (out_bytes output) \<le> 14 + length s"
    by (simp add: out_bytes_def s vfield_def dfield_def)
  then show ?thesis using s(2) by simp
qed

lemma write_output_bytes:
  assumes "valid_output output" and "small_tag t"
  shows "write_output t output bw = Return (bw @ dfield t (out_bytes output))"
proof -
  obtain s where s: "script output = Some s" "length s < 2 ^ 31"
    using assms(1) by (auto simp: valid_output_def)
  have v: "0 \<le> ovalue output" "ovalue output < 2 ^ 63"
    using assms(1) by (simp_all add: valid_output_def)
  have s32: "length s < 2 ^ 32" using s(2) by (rule less_trans) simp
  have a: "writeFieldU64 1 (ovalue output) [] = Return ([] @ vfield 1 (nat (ovalue output)))"
    by (rule writeFieldU64_bytes [OF small_tags(1) v])
  have b: "writeFieldBytes 2 s (vfield 1 (nat (ovalue output)))
      = Return (vfield 1 (nat (ovalue output)) @ dfield 2 s)"
    by (rule writeFieldBytes_bytes [OF small_tags(2) s32])
  have c: "writeFieldBytes t (out_bytes output) bw = Return (bw @ dfield t (out_bytes output))"
    by (rule writeFieldBytes_bytes [OF assms(2) out_bytes_length [OF assms(1)]])
  show ?thesis
    using a b c by (simp add: write_output_def bind_o_def s render_def out_bytes_def)
qed

lemma write_outputs_bytes:
  "\<forall>output \<in> set outs. valid_output output \<Longrightarrow> small_tag t \<Longrightarrow>
   write_outputs t outs bw = Return (bw @ outs_bytes t outs)"
  by (induction outs arbitrary: bw) (simp_all add: outs_bytes_def write_output_bytes bind_o_def)

lemma read_output_bytes:
  assumes "valid_output output"
  shows "read_output (Suc fuel) (out_bytes output) = Return output"
proof -
  obtain s where s: "script output = Some s" "length s < 2 ^ 31"
    using assms by (auto simp: valid_output_def)
  have v: "0 \<le> ovalue output" "nat (ovalue output) < 2 ^ 42"
    using assms by (simp_all add: valid_output_def nat_less_iff)
  have s32: "length s < 2 ^ 32" using s(2) by (rule less_trans) simp
  let ?v = "vfield 1 (nat (ovalue output))"
  have a: "readFieldU64 (Suc fuel) (out_bytes output) 0 1 True
      = (Return (int (nat (ovalue output))), 0 + length ?v)"
    by (rule readFieldU64_vfield [OF small_tags(1) v(2), of _ "[]" "dfield 2 s"])
       (simp_all add: out_bytes_def s)
  have b: "readFieldBytes (Suc fuel) (out_bytes output) (length ?v) 2 True
      = (Return (Some s), length ?v + length (dfield 2 s))"
    by (rule readFieldBytes_dfield [OF small_tags(2) s32, of _ ?v "[]"])
       (simp_all add: out_bytes_def s)
  have "output = \<lparr>ovalue = ovalue output, script = Some s\<rparr>" using s(1) by (cases "output") simp
  then show ?thesis using a b v(1) by (simp add: read_output_def bind_r_def)
qed

lemma starts_from_outs:
  assumes "t \<le> 2" and "starts_from t post"
  shows "starts_from t (outs_bytes 2 outs @ post)"
proof (cases outs)
  case Nil
  then show ?thesis using assms(2) by (simp add: outs_bytes_def)
next
  case (Cons x rest)
  have "starts_from t (dfield 2 (out_bytes x) @ (outs_bytes 2 rest @ post))"
    using assms(1) by (intro starts_from_dfield) simp_all
  then show ?thesis by (simp add: Cons outs_bytes_def)
qed

lemma outputs_loop_bytes:
  assumes "\<forall>output \<in> set outs. valid_output output" and "tv < 2 ^ 42"
    and "data = pre @ outs_bytes 2 outs @ vfield 3 tv @ rest" and "off = length pre"
  shows "PaymentDetails_outputs_loop (Suc fuel) data off acc
         = (Return (acc @ outs), off + length (outs_bytes 2 outs))"
  using assms
proof (induction outs arbitrary: pre off acc)
  case Nil
  have "nextTag (Suc fuel) data off = (Return 3, off)"
    by (rule nextTag_vfield [OF small_tags(3) Nil.prems(2), of _ pre rest])
       (use Nil.prems in \<open>simp_all add: outs_bytes_def\<close>)
  then show ?case
    by (subst PaymentDetails_outputs_loop.simps) (simp add: bind_r_def outs_bytes_def)
next
  case (Cons x outs)
  have vo: "valid_output x" and vr: "\<forall>output \<in> set outs. valid_output output"
    using Cons.prems(1) by simp_all
  let ?f = "dfield 2 (out_bytes x)"
  have data: "data = pre @ ?f @ (outs_bytes 2 outs @ vfield 3 tv @ rest)"
    using Cons.prems(3) by (simp add: outs_bytes_def)
  have nt: "nextTag (Suc fuel) data off = (Return 2, off)"
    by (rule nextTag_dfield [OF small_tags(2) out_bytes_length [OF vo] data Cons.prems(4)])
  have rb: "readFieldBytes (Suc fuel) data off 2 False
      = (Return (Some (out_bytes x)), off + length ?f)"
    by (rule readFieldBytes_dfield [OF small_tags(2) out_bytes_length [OF vo] data Cons.prems(4)])
  have IH: "PaymentDetails_outputs_loop (Suc fuel) data (off + length ?f) (acc @ [x])
      = (Return ((acc @ [x]) @ outs), (off + length ?f) + length (outs_bytes 2 outs))"
    by (rule Cons.IH [OF vr Cons.prems(2), of "pre @ ?f"])
       (use data Cons.prems(4) in simp_all)
  show ?case
    by (subst PaymentDetails_outputs_loop.simps)
       (simp add: nt rb bind_r_def read_output_bytes [OF vo] IH outs_bytes_def)
qed

lemma write_opt_s:
  assumes "small_tag t" and "\<forall>s. x = Some s \<longrightarrow> length s < 2 ^ 32"
  shows "(case x of None \<Rightarrow> Return bw | Some s \<Rightarrow> writeFieldString t s bw)
         = Return (bw @ opt_s t x)"
proof (cases x)
  case None
  then show ?thesis by (simp add: opt_s_def)
next
  case (Some s)
  then have "length (from_utf8 s) < 2 ^ 32" using assms(2) by (simp add: length_from_utf8)
  then show ?thesis
    using Some by (simp add: opt_s_def writeFieldString_def writeFieldBytes_bytes [OF assms(1)])
qed

lemma write_opt_v:
  assumes "small_tag t" and "v = - 1 \<or> (0 \<le> v \<and> v < 2 ^ 42)"
  shows "(if v \<noteq> - 1 then writeFieldU64 t v bw else Return bw) = Return (bw @ opt_v t v)"
proof (cases "v = - 1")
  case True
  then show ?thesis by (simp add: opt_v_def)
next
  case False
  then have "0 \<le> v" "v < 2 ^ 63" using assms(2) by auto
  then show ?thesis
    using False by (simp add: opt_v_def writeFieldU64_bytes [OF assms(1)])
qed

lemma PaymentDetails_toRaw_bytes:
  assumes "valid_details d"
  shows "PaymentDetails_toRaw d = Return (details_bytes d)"
proof -
  have n: "(case network d of None \<Rightarrow> Return [] | Some s \<Rightarrow> writeFieldString 1 s [])
      = Return ([] @ opt_s 1 (network d))"
    using assms by (intro write_opt_s small_tags) (simp add: valid_details_def)
  have o: "write_outputs 2 (outputs d) bw = Return (bw @ outs_bytes 2 (outputs d))" for bw
    using assms by (intro write_outputs_bytes small_tags) (simp add: valid_details_def)
  have t: "writeFieldU64 3 (time d) bw = Return (bw @ vfield 3 (nat (time d)))" for bw
    using assms by (intro writeFieldU64_bytes small_tags) (simp_all add: valid_details_def)
  have e: "(if expires d \<noteq> - 1 then writeFieldU64 4 (expires d) bw else Return bw)
      = Return (bw @ opt_v 4 (expires d))" for bw
    using assms by (intro write_opt_v small_tags) (simp add: valid_details_def)
  have m: "(case memo d of None \<Rightarrow> Return bw | Some s \<Rightarrow> writeFieldString 5 s bw)
      = Return (bw @ opt_s 5 (memo d))" for bw
    using assms by (intro write_opt_s small_tags) (simp add: valid_details_def)
  have u: "(case paymentUrl d of None \<Rightarrow> Return bw | Some s \<Rightarrow> writeFieldString 6 s bw)
      = Return (bw @ opt_s 6 (paymentUrl d))" for bw
    using assms by (intro write_opt_s small_tags) (simp add: valid_details_def)
  have md: "(case merchantData d of None \<Rightarrow> Return bw | Some x \<Rightarrow> writeFieldString_buf 7 x bw)
      = Return (bw @ opt_d 7 (merchantData d))" for bw
  proof (cases "merchantData d")
    case None
    then show ?thesis by (simp add: opt_d_def)
  next
    case (Some x)
    then have "length x < 2 ^ 32" using assms by (simp add: valid_details_def)
    then show ?thesis
      using Some
      by (simp add: opt_d_def writeFieldString_buf_def writeFieldBytes_bytes [OF small_tags(7)])
  qed
  show ?thesis
    unfolding PaymentDetails_toRaw_def
    by (simp only: n o t e m u md bind_o_def outcome.case render_def details_bytes_def
          append_Nil append_assoc)
qed

lemma PaymentDetails_fromRaw_bytes:
  assumes "valid_details d"
  shows "PaymentDetails_fromRaw (Suc fuel) this (details_bytes d)
         = Return (d\<lparr>outputs := outputs this @ outputs d\<rparr>)"
proof -
  let ?P1 = "opt_s 1 (network d)"
  let ?P2 = "outs_bytes 2 (outputs d)"
  let ?P3 = "vfield 3 (nat (time d))"
  let ?P4 = "opt_v 4 (expires d)"
  let ?P5 = "opt_s 5 (memo d)"
  let ?P6 = "opt_s 6 (paymentUrl d)"
  let ?P7 = "opt_d 7 (merchantData d)"
  let ?raw = "details_bytes d"
  have tv: "0 \<le> time d" "nat (time d) < 2 ^ 42"
    using assms by (simp_all add: valid_details_def nat_less_iff)
  have sf7: "starts_from t ?P7" if "t \<le> 7" for t
    using starts_from_opt_d [of t 7 "[]" "merchantData d"] that by (simp add: starts_from_Nil)
  have sf6: "starts_from t (?P6 @ ?P7)" if "t \<le> 6" for t
    using that by (intro starts_from_opt_s sf7) simp_all
  have sf5: "starts_from t (?P5 @ ?P6 @ ?P7)" if "t \<le> 5" for t
    using that by (intro starts_from_opt_s sf6) simp_all
  have sf3: "starts_from t (?P3 @ ?P4 @ ?P5 @ ?P6 @ ?P7)" if "t \<le> 3" for t
    using that by (intro starts_from_vfield) simp_all
  have sf2: "starts_from 2 (?P2 @ ?P3 @ ?P4 @ ?P5 @ ?P6 @ ?P7)"
    by (intro starts_from_outs sf3) simp_all
  have s1: "readFieldString (Suc fuel) ?raw 0 1 True = (Return (network d), 0 + length ?P1)"
    by (rule readFieldString_opt [OF small_tags(1), of _ "?P2 @ ?P3 @ ?P4 @ ?P5 @ ?P6 @ ?P7" _ "[]"])
       (use assms sf2 in \<open>simp_all add: valid_details_def details_bytes_def\<close>)
  have s2: "PaymentDetails_outputs_loop (Suc fuel) ?raw (length ?P1) (outputs this)
      = (Return (outputs this @ outputs d), length ?P1 + length ?P2)"
    by (rule outputs_loop_bytes [OF _ tv(2), of _ _ ?P1 "?P4 @ ?P5 @ ?P6 @ ?P7"])
       (use assms in \<open>simp_all add: valid_details_def details_bytes_def\<close>)
  have s3: "readFieldU64 (Suc fuel) ?raw (length ?P1 + length ?P2) 3 False
      = (Return (int (nat (time d))), length ?P1 + length ?P2 + length ?P3)"
    by (rule readFieldU64_vfield [OF small_tags(3) tv(2), of _ "?P1 @ ?P2" "?P4 @ ?P5 @ ?P6 @ ?P7"])
       (simp_all add: details_bytes_def)
  have s4: "readFieldU64 (Suc fuel) ?raw (length ?P1 + length ?P2 + length ?P3) 4 True
      = (Return (expires d), length ?P1 + length ?P2 + length ?P3 + length ?P4)"
    by (rule readFieldU64_opt [OF small_tags(4), of _ "?P5 @ ?P6 @ ?P7" _ "?P1 @ ?P2 @ ?P3"])
       (use assms sf5 in \<open>simp_all add: valid_details_def details_bytes_def\<close>)
  have s5: "readFieldString (Suc fuel) ?raw (length ?P1 + length ?P2 + length ?P3 + length ?P4)
        5 True
      = (Return (memo d), length ?P1 + length ?P2 + length ?P3 + length ?P4 + length ?P5)"
    by (rule readFieldString_opt [OF small_tags(5), of _ "?P6 @ ?P7" _ "?P1 @ ?P2 @ ?P3 @ ?P4"])
       (use assms sf6 in \<open>simp_all add: valid_details_def details_bytes_def\<close>)
  have s6: "readFieldString (Suc fuel) ?raw
        (length ?P1 + length ?P2 + length ?P3 + length ?P4 + length ?P5) 6 True
      = (Return (paymentUrl d),
         length ?P1 + length ?P2 + length ?P3 + length ?P4 + length ?P5 + length ?P6)"
    by (rule readFieldString_opt [OF small_tags(6), of _ "?P7" _ "?P1 @ ?P2 @ ?P3 @ ?P4 @ ?P5"])
       (use assms sf7 in \<open>simp_all add: valid_details_def details_bytes_def\<close>)
  have s7: "readFieldBytes (Suc fuel) ?raw
        (length ?P1 + length ?P2 + length ?P3 + length ?P4 + length ?P5 + length ?P6) 7 True
      = (Return (merchantData d),
         length ?P1 + length ?P2 + length ?P3 + length ?P4 + length ?P5 + length ?P6 + length ?P7)"
    by (rule readFieldBytes_opt [OF small_tags(7), of _ "[]" _ "?P1 @ ?P2 @ ?P3 @ ?P4 @ ?P5 @ ?P6"])
       (use assms in \<open>simp_all add: valid_details_def details_bytes_def starts_from_Nil\<close>)
  have r: "\<lparr>network = network d, outputs = outputs this @ outputs d, time = time d,
            expires = expires d, memo = memo d, paymentUrl = paymentUrl d,
            merchantData = merchantData d\<rparr> = d\<lparr>outputs := outputs this @ outputs d\<rparr>"
    by (cases d) simp
  show ?thesis
    unfolding PaymentDetails_fromRaw_def
    using tv(1) by (simp add: s1 s2 s3 s4 s5 s6 s7 bind_r_def r)
qed

lemma write_opt_d:
  assumes "small_tag t" and "\<forall>x. v = Some x \<longrightarrow> length x < 2 ^ 32"
  shows "(case v of None \<Rightarrow> Return bw | Some x \<Rightarrow> writeFieldBytes t x bw)
         = Return (bw @ opt_d t v)"
proof (cases v)
  case None
  then show ?thesis by (simp add: opt_d_def)
next
  case (Some x)
  then have "length x < 2 ^ 32" using assms(2) by simp
  then show ?thesis
    using Some by (simp add: opt_d_def writeFieldBytes_bytes [OF assms(1)])
qed

lemma write_opt_v32:
  assumes "small_tag t" and "v = - 1 \<or> (0 \<le> v \<and> v < 2 ^ 42)"
  shows "(if v \<noteq> - 1 then writeFieldU32 t v bw else Return bw) = Return (bw @ opt_v t v)"
proof -
  have "writeFieldU32 t v bw = writeFieldU64 t v bw"
    by (simp add: writeFieldU32_def writeFieldU64_def)
  then show ?thesis using write_opt_v [OF assms, of bw] by (simp only:)
qed

lemma readFieldU32_opt:
  assumes "small_tag t" and "v = - 1 \<or> (0 \<le> v \<and> v < 2 ^ 42)" and "starts_from (t + 1) post"
    and "data = pre @ opt_v t v @ post" and "off = length pre"
  shows "readFieldU32 (Suc fuel) data off t True = (Return v, off + length (opt_v t v))"
proof (cases "v = - 1")
  case True
  have "no_field t post" using assms(1,3) by (intro starts_from_no_field) (simp_all add: small_tag_def)
  moreover have "t \<noteq> 0" using assms(1) by (simp add: small_tag_def)
  ultimately show ?thesis
    using assms(4,5) True by (simp add: readFieldU32_absent [of t post _ pre] opt_v_def)
next
  case False
  then have v: "0 \<le> v" "v < 2 ^ 42" using assms(2) by simp_all
  then have "nat v < 2 ^ 42" by (simp add: nat_less_iff)
  then show ?thesis
    using assms(1,4,5) False v
    by (simp add: readFieldU32_vfield [of t "nat v" _ pre post] opt_v_def)
qed

lemma PaymentRequest_toRaw_bytes:
  assumes "valid_request r"
  shows "PaymentRequest_toRaw r = Return (request_bytes r)"
proof -
  have vv: "version r = - 1 \<or> (0 \<le> version r \<and> version r < 2 ^ 42)"
    using assms by (auto simp: valid_request_def)
  have v: "(if version r \<noteq> - 1 then writeFieldU32 1 (version r) [] else Return [])
      = Return ([] @ opt_v 1 (version r))"
    by (rule write_opt_v32 [OF small_tags(1) vv])
  have t: "(case pkiType r of None \<Rightarrow> Return bw | Some s \<Rightarrow> writeFieldString 2 s bw)
      = Return (bw @ opt_s 2 (pkiType r))" for bw
    using assms by (intro write_opt_s small_tags) (simp add: valid_request_def)
  have p: "(case pkiData r of None \<Rightarrow> Return bw | Some x \<Rightarrow> writeFieldBytes 3 x bw)
      = Return (bw @ opt_d 3 (pkiData r))" for bw
    using assms by (intro write_opt_d small_tags) (simp add: valid_request_def)
  have d: "PaymentDetails_toRaw (paymentDetails r) = Return (details_bytes (paymentDetails r))"
    using assms by (intro PaymentDetails_toRaw_bytes) (simp add: valid_request_def)
  have f: "writeFieldBytes 4 (details_bytes (paymentDetails r)) bw
      = Return (bw @ dfield 4 (details_bytes (paymentDetails r)))" for bw
    using assms by (intro writeFieldBytes_bytes small_tags) (simp add: valid_request_def)
  have s: "(case signature r of None \<Rightarrow> Return bw | Some x \<Rightarrow> writeFieldBytes 5 x bw)
      = Return (bw @ opt_d 5 (signature r))" for bw
    using assms by (intro write_opt_d small_tags) (simp add: valid_request_def)
  show ?thesis
    unfolding PaymentRequest_toRaw_def
    by (simp only: v t p d f s bind_o_def outcome.case render_def request_bytes_def
          append_Nil append_assoc)
qed

lemma PaymentRequest_fromRaw_bytes:
  assumes "valid_request r"
  shows "PaymentRequest_fromRaw (Suc fuel) this (request_bytes r)
         = Return (r\<lparr>paymentDetails := (paymentDetails r)
              \<lparr>outputs := outputs (paymentDetails this) @ outputs (paymentDetails r)\<rparr>\<rparr>)"
proof -
  let ?P1 = "opt_v 1 (version r)"
  let ?P2 = "opt_s 2 (pkiType r)"
  let ?P3 = "opt_d 3 (pkiData r)"
  let ?D = "details_bytes (paymentDetails r)"
  let ?P4 = "dfield 4 ?D"
  let ?P5 = "opt_d 5 (signature r)"
  let ?raw = "request_bytes r"
  have vv: "version r = - 1 \<or> (0 \<le> version r \<and> version r < 2 ^ 42)"
    using assms by (auto simp: valid_request_def)
  have vd: "valid_details (paymentDetails r)" and ld: "length ?D < 2 ^ 32"
    using assms by (simp_all add: valid_request_def)
  have sf4: "starts_from t (?P4 @ ?P5)" if "t \<le> 4" for t
    using that by (intro starts_from_dfield) simp_all
  have sf3: "starts_from t (?P3 @ ?P4 @ ?P5)" if "t \<le> 3" for t
    using that by (intro starts_from_opt_d sf4) simp_all
  have sf2: "starts_from t (?P2 @ ?P3 @ ?P4 @ ?P5)" if "t \<le> 2" for t
    using that by (intro starts_from_opt_s sf3) simp_all
  have s1: "readFieldU32 (Suc fuel) ?raw 0 1 True = (Return (version r), 0 + length ?P1)"
    by (rule readFieldU32_opt [OF small_tags(1) vv, of "?P2 @ ?P3 @ ?P4 @ ?P5" _ "[]"])
       (use sf2 in \<open>simp_all add: request_bytes_def\<close>)
  have s2: "readFieldString (Suc fuel) ?raw (length ?P1) 2 True
      = (Return (pkiType r), length ?P1 + length ?P2)"
    by (rule readFieldString_opt [OF small_tags(2), of _ "?P3 @ ?P4 @ ?P5" _ ?P1])
       (use assms sf3 in \<open>simp_all add: valid_request_def request_bytes_def\<close>)
  have s3: "readFieldBytes (Suc fuel) ?raw (length ?P1 + length ?P2) 3 True
      = (Return (pkiData r), length ?P1 + length ?P2 + length ?P3)"
    by (rule readFieldBytes_opt [OF small_tags(3), of _ "?P4 @ ?P5" _ "?P1 @ ?P2"])
       (use assms sf4 in \<open>simp_all add: valid_request_def request_bytes_def\<close>)
  have s4: "readFieldBytes (Suc fuel) ?raw (length ?P1 + length ?P2 + length ?P3) 4 False
      = (Return (Some ?D), length ?P1 + length ?P2 + length ?P3 + length ?P4)"
    by (rule readFieldBytes_dfield [OF small_tags(4) ld, of _ "?P1 @ ?P2 @ ?P3" ?P5])
       (simp_all add: request_bytes_def)
  have s5: "readFieldBytes (Suc fuel) ?raw
        (length ?P1 + length ?P2 + length ?P3 + length ?P4) 5 True
      = (Return (signature r), length ?P1 + length ?P2 + length ?P3 + length ?P4 + length ?P5)"
    by (rule readFieldBytes_opt [OF small_tags(5), of _ "[]" _ "?P1 @ ?P2 @ ?P3 @ ?P4"])
       (use assms in \<open>simp_all add: valid_request_def request_bytes_def starts_from_Nil\<close>)
  have dd: "PaymentDetails_fromRaw (Suc fuel) (paymentDetails this) ?D
      = Return ((paymentDetails r)
          \<lparr>outputs := outputs (paymentDetails this) @ outputs (paymentDetails r)\<rparr>)"
    by (rule PaymentDetails_fromRaw_bytes [OF vd])
  have e: "\<lparr>version = version r, pkiType = pkiType r, pkiData = pkiData r,
            paymentDetails = x, signature = signature r\<rparr> = r\<lparr>paymentDetails := x\<rparr>" for x
    by (cases r) simp
  show ?thesis
    unfolding PaymentRequest_fromRaw_def
    by (simp add: s1 s2 s3 s4 s5 dd bind_r_def e)
qed

lemma valid_example_details: "valid_details example_details"
  by (simp add: valid_details_def valid_output_def example_details_def)

lemma example_details_bytes:
  "details_bytes example_details
   = [0x0a, 0x07, 0x74, 0x65, 0x73, 0x74, 0x6e, 0x65, 0x74, 0x12, 0x05, 0x08, 0x90, 0x4e, 0x12,
      0x00, 0x18, 0xe8, 0x07, 0x20, 0xd0, 0x0f]"
  by (simp add: details_bytes_def example_details_def opt_s_def opt_d_def opt_v_def
        outs_bytes_def out_bytes_def dfield_def vfield_def hdr_def from_utf8_def
        encode_groups.simps [of 10000] encode_groups.simps [of 1000]
        encode_groups.simps [of 2000] encode_groups_small)

lemma valid_example_request: "valid_request example_request"
  by (simp add: valid_request_def example_request_def valid_example_details example_details_bytes)

text \<open>
  Encoding a \<open>PaymentDetails\<close> within these bounds succeeds, and decoding the bytes on
  a new object gives the same value back, field by field: an absent string or buffer
  comes back \<open>null\<close>, an absent \<open>expires\<close> comes back as the sentinel \<open>-1\<close>.
\<close>

theorem PaymentDetails_roundtrip:
  "valid_details d \<longrightarrow>
     (\<exists>raw. PaymentDetails_toRaw d = Return raw \<and>
            PaymentDetails_fromRaw_static (Suc fuel) now raw = Return d)"
proof
  assume v: "valid_details d"
  have "PaymentDetails_fromRaw_static (Suc fuel) now (details_bytes d) = Return d"
    using PaymentDetails_fromRaw_bytes [OF v, of fuel "new_PaymentDetails now"]
    by (simp add: PaymentDetails_fromRaw_static_def new_PaymentDetails_def)
  with PaymentDetails_toRaw_bytes [OF v]
  show "\<exists>raw. PaymentDetails_toRaw d = Return raw \<and>
            PaymentDetails_fromRaw_static (Suc fuel) now raw = Return d"
    by blast
qed

theorem PaymentDetails_roundtrip_witness:
  "\<exists>raw. PaymentDetails_toRaw example_details = Return raw \<and>
         PaymentDetails_fromRaw_static (Suc 0) 0 raw = Return example_details"
  by (rule PaymentDetails_roundtrip [THEN mp, OF valid_example_details])

text \<open>
  The same for a \<open>PaymentRequest\<close> whose version is absent (\<open>-1\<close>) or a non-negative
  32-bit integer and whose embedded details are within the bounds above.
\<close>

theorem PaymentRequest_roundtrip:
  "valid_request r \<longrightarrow>
     (\<exists>raw. PaymentRequest_toRaw r = Return raw \<and>
            PaymentRequest_fromRaw_static (Suc fuel) now raw = Return r)"
proof
  assume v: "valid_request r"
  have "PaymentRequest_fromRaw_static (Suc fuel) now (request_bytes r) = Return r"
    using PaymentRequest_fromRaw_bytes [OF v, of fuel "new_PaymentRequest now"]
    by (simp add: PaymentRequest_fromRaw_static_def new_PaymentRequest_def new_PaymentDetails_def)
  with PaymentRequest_toRaw_bytes [OF v]
  show "\<exists>raw. PaymentRequest_toRaw r = Return raw \<and>
            PaymentRequest_fromRaw_static (Suc fuel) now raw = Return r"
    by blast
qed

theorem PaymentRequest_roundtrip_witness:
  "\<exists>raw. PaymentRequest_toRaw example_request = Return raw \<and>
         PaymentRequest_fromRaw_static (Suc 0) 0 raw = Return example_request"
  by (rule PaymentRequest_roundtrip [THEN mp, OF valid_example_request])

text \<open>The two remaining messages, \<open>Payment\<close> and \<open>PaymentACK\<close>.\<close>

lemma write_transactions_bytes:
  "\<forall>tx \<in> set txs. valid_tx tx \<Longrightarrow> write_transactions txs bw = Return (bw @ txs_bytes txs)"
proof (induction txs arbitrary: bw)
  case Nil
  show ?case by (simp add: txs_bytes_def)
next
  case (Cons tx txs)
  then obtain t where t: "tx = Some t" "length t < 2 ^ 32" by (auto simp: valid_tx_def)
  have "writeFieldBytes 2 t bw = Return (bw @ dfield 2 t)"
    by (rule writeFieldBytes_bytes [OF small_tags(2) t(2)])
  then show ?case using Cons t by (simp add: bind_o_def txs_bytes_def tx_bytes_def)
qed

lemma nextTag_opt_s_end:
  assumes "small_tag t" and "\<forall>s. x = Some s \<longrightarrow> length s < 2 ^ 32"
    and "data = pre @ opt_s t x" and "off = length pre"
  shows "nextTag (Suc fuel) data off = (Return (if x = None then - 1 else t), off)"
proof (cases x)
  case None
  then show ?thesis using assms(3,4) by (simp add: opt_s_def nextTag_end)
next
  case (Some s)
  then have "length (from_utf8 s) < 2 ^ 32" using assms(2) by (simp add: length_from_utf8)
  then have "nextTag (Suc fuel) data off = (Return t, off)"
    by (rule nextTag_dfield [OF assms(1), of _ _ pre "[]"])
       (use assms(3,4) Some in \<open>simp_all add: opt_s_def\<close>)
  then show ?thesis using Some by simp
qed

lemma transactions_loop_bytes:
  assumes "\<forall>tx \<in> set txs. valid_tx tx"
    and "data = pre @ txs_bytes txs @ post" and "off = length pre"
    and "nextTag (Suc fuel) data (off + length (txs_bytes txs))
         = (Return t', off + length (txs_bytes txs))" and "t' \<noteq> 2"
  shows "Payment_transactions_loop (Suc fuel) data off acc
         = (Return (acc @ txs), off + length (txs_bytes txs))"
  using assms(1-4)
proof (induction txs arbitrary: pre off acc)
  case Nil
  then show ?case
    using assms(5) by (subst Payment_transactions_loop.simps) (simp add: bind_r_def txs_bytes_def)
next
  case (Cons tx txs)
  obtain t where t: "tx = Some t" "length t < 2 ^ 32"
    using Cons.prems(1) by (auto simp: valid_tx_def)
  have vr: "\<forall>tx \<in> set txs. valid_tx tx" using Cons.prems(1) by simp
  have data: "data = pre @ dfield 2 t @ (txs_bytes txs @ post)"
    using Cons.prems(2) by (simp add: txs_bytes_def tx_bytes_def t)
  have len: "length (txs_bytes (tx # txs)) = length (dfield 2 t) + length (txs_bytes txs)"
    by (simp add: txs_bytes_def tx_bytes_def t)
  have nt: "nextTag (Suc fuel) data off = (Return 2, off)"
    by (rule nextTag_dfield [OF small_tags(2) t(2) data Cons.prems(3)])
  have rb: "readFieldBytes (Suc fuel) data off 2 False
      = (Return (Some t), off + length (dfield 2 t))"
    by (rule readFieldBytes_dfield [OF small_tags(2) t(2) data Cons.prems(3)])
  have IH: "Payment_transactions_loop (Suc fuel) data (off + length (dfield 2 t)) (acc @ [tx])
      = (Return ((acc @ [tx]) @ txs), (off + length (dfield 2 t)) + length (txs_bytes txs))"
    by (rule Cons.IH [OF vr, of "pre @ dfield 2 t"])
       (use data Cons.prems(3,4) len in \<open>simp_all add: add.assoc\<close>)
  show ?case
    by (subst Payment_transactions_loop.simps)
       (simp add: nt rb bind_r_def IH [unfolded t(1)] len [unfolded t(1)] t add.assoc)
qed

lemma refundTo_loop_bytes:
  assumes "\<forall>output \<in> set outs. valid_output output"
    and "data = pre @ outs_bytes 3 outs @ post" and "off = length pre"
    and "nextTag (Suc fuel) data (off + length (outs_bytes 3 outs))
         = (Return t', off + length (outs_bytes 3 outs))" and "t' \<noteq> 3"
  shows "Payment_refundTo_loop (Suc fuel) data off acc
         = (Return (acc @ outs), off + length (outs_bytes 3 outs))"
  using assms(1-4)
proof (induction outs arbitrary: pre off acc)
  case Nil
  then show ?case
    using assms(5) by (subst Payment_refundTo_loop.simps) (simp add: bind_r_def outs_bytes_def)
next
  case (Cons x outs)
  have vo: "valid_output x" and vr: "\<forall>output \<in> set outs. valid_output output"
    using Cons.prems(1) by simp_all
  let ?f = "dfield 3 (out_bytes x)"
  have data: "data = pre @ ?f @ (outs_bytes 3 outs @ post)"
    using Cons.prems(2) by (simp add: outs_bytes_def)
  have len: "length (outs_bytes 3 (x # outs)) = length ?f + length (outs_bytes 3 outs)"
    by (simp add: outs_bytes_def)
  have nt: "nextTag (Suc fuel) data off = (Return 3, off)"
    by (rule nextTag_dfield [OF small_tags(3) out_bytes_length [OF vo] data Cons.prems(3)])
  have rb: "readFieldBytes (Suc fuel) data off 3 False
      = (Return (Some (out_bytes x)), off + length ?f)"
    by (rule readFieldBytes_dfield [OF small_tags(3) out_bytes_length [OF vo] data Cons.prems(3)])
  have IH: "Payment_refundTo_loop (Suc fuel) data (off + length ?f) (acc @ [x])
      = (Return ((acc @ [x]) @ outs), (off + length ?f) + length (outs_bytes 3 outs))"
    by (rule Cons.IH [OF vr, of "pre @ ?f"])
       (use data Cons.prems(3,4) len in \<open>simp_all add: add.assoc\<close>)
  show ?case
    by (subst Payment_refundTo_loop.simps)
       (simp add: nt rb bind_r_def read_output_bytes [OF vo] IH len add.assoc)
qed

lemma starts_from_outs_tag:
  assumes "t \<le> T" and "T < 16" and "starts_from t post"
  shows "starts_from t (outs_bytes T outs @ post)"
proof (cases outs)
  case Nil
  then show ?thesis using assms(3) by (simp add: outs_bytes_def)
next
  case (Cons x rest)
  have "starts_from t (dfield T (out_bytes x) @ (outs_bytes T rest @ post))"
    using assms(1,2) by (intro starts_from_dfield) simp_all
  then show ?thesis by (simp add: Cons outs_bytes_def)
qed

lemma starts_from_txs:
  assumes "t \<le> 2" and "starts_from t post"
  shows "starts_from t (txs_bytes txs @ post)"
proof (induction txs)
  case Nil
  then show ?case using assms(2) by (simp add: txs_bytes_def)
next
  case (Cons tx txs)
  show ?case
  proof (cases tx)
    case None
    then show ?thesis using Cons by (simp add: txs_bytes_def tx_bytes_def)
  next
    case (Some x)
    have "starts_from t (dfield 2 x @ (txs_bytes txs @ post))"
      using assms(1) by (intro starts_from_dfield) simp_all
    then show ?thesis using Some by (simp add: txs_bytes_def tx_bytes_def)
  qed
qed

lemma Payment_toRaw_bytes:
  assumes "valid_payment p"
  shows "Payment_toRaw p = Return (payment_bytes p)"
proof -
  have m: "(case pay_merchantData p of None \<Rightarrow> Return [] | Some x \<Rightarrow> writeFieldBytes 1 x [])
      = Return ([] @ opt_d 1 (pay_merchantData p))"
    using assms by (intro write_opt_d small_tags) (simp add: valid_payment_def)
  have t: "write_transactions (transactions p) bw = Return (bw @ txs_bytes (transactions p))" for bw
    using assms by (intro write_transactions_bytes) (simp add: valid_payment_def)
  have o: "write_outputs 3 (refundTo p) bw = Return (bw @ outs_bytes 3 (refundTo p))" for bw
    using assms by (intro write_outputs_bytes small_tags) (simp add: valid_payment_def)
  have s: "(case pay_memo p of None \<Rightarrow> Return bw | Some x \<Rightarrow> writeFieldString 4 x bw)
      = Return (bw @ opt_s 4 (pay_memo p))" for bw
    using assms by (intro write_opt_s small_tags) (simp add: valid_payment_def)
  show ?thesis
    unfolding Payment_toRaw_def
    by (simp only: m t o s bind_o_def outcome.case render_def payment_bytes_def
          append_Nil append_assoc)
qed

lemma Payment_fromRaw_bytes:
  assumes "valid_payment p"
  shows "Payment_fromRaw (Suc fuel) this (payment_bytes p)
         = Return (p\<lparr>transactions := transactions this @ transactions p,
                      refundTo := refundTo this @ refundTo p\<rparr>)"
proof -
  let ?P1 = "opt_d 1 (pay_merchantData p)"
  let ?P2 = "txs_bytes (transactions p)"
  let ?P3 = "outs_bytes 3 (refundTo p)"
  let ?P4 = "opt_s 4 (pay_memo p)"
  let ?raw = "payment_bytes p"
  have vm: "\<forall>s. pay_memo p = Some s \<longrightarrow> length s < 2 ^ 32"
    and vt: "\<forall>tx \<in> set (transactions p). valid_tx tx"
    and vo: "\<forall>output \<in> set (refundTo p). valid_output output"
    using assms by (simp_all add: valid_payment_def)
  have sf4: "starts_from t ?P4" if "t \<le> 4" for t
    using starts_from_opt_s [of t 4 "[]" "pay_memo p"] that by (simp add: starts_from_Nil)
  have sf3: "starts_from t (?P3 @ ?P4)" if "t \<le> 3" for t
    using that by (intro starts_from_outs_tag sf4) simp_all
  have sf2: "starts_from 2 (?P2 @ ?P3 @ ?P4)"
    by (intro starts_from_txs sf3) simp_all
  have s1: "readFieldBytes (Suc fuel) ?raw 0 1 True = (Return (pay_merchantData p), 0 + length ?P1)"
    by (rule readFieldBytes_opt [OF small_tags(1), of _ "?P2 @ ?P3 @ ?P4" _ "[]"])
       (use assms sf2 in \<open>simp_all add: valid_payment_def payment_bytes_def\<close>)
  have e4: "nextTag (Suc fuel) ?raw (length ?P1 + length ?P2 + length ?P3)
      = (Return (if pay_memo p = None then - 1 else 4), length ?P1 + length ?P2 + length ?P3)"
    by (rule nextTag_opt_s_end [OF small_tags(4) vm, of _ "?P1 @ ?P2 @ ?P3"])
       (simp_all add: payment_bytes_def)
  have e3: "\<exists>t'. t' \<noteq> 2 \<and> nextTag (Suc fuel) ?raw (length ?P1 + length ?P2)
      = (Return t', length ?P1 + length ?P2)"
  proof (cases "refundTo p")
    case Nil
    then have "nextTag (Suc fuel) ?raw (length ?P1 + length ?P2)
        = (Return (if pay_memo p = None then - 1 else 4), length ?P1 + length ?P2)"
      using e4 by (simp add: outs_bytes_def)
    then show ?thesis by auto
  next
    case (Cons x rest)
    then have "valid_output x" using vo by simp
    then have "nextTag (Suc fuel) ?raw (length ?P1 + length ?P2) = (Return 3, length ?P1 + length ?P2)"
      by (intro nextTag_dfield [OF small_tags(3) out_bytes_length,
            of x _ "?P1 @ ?P2" "outs_bytes 3 rest @ ?P4"])
         (simp_all add: payment_bytes_def Cons outs_bytes_def)
    then show ?thesis by auto
  qed
  then obtain t' where t': "t' \<noteq> 2"
    and n3: "nextTag (Suc fuel) ?raw (length ?P1 + length ?P2)
      = (Return t', length ?P1 + length ?P2)"
    by blast
  have s2: "Payment_transactions_loop (Suc fuel) ?raw (length ?P1) (transactions this)
      = (Return (transactions this @ transactions p), length ?P1 + length ?P2)"
    by (rule transactions_loop_bytes [OF vt _ _ _ t', of _ ?P1 "?P3 @ ?P4"])
       (use n3 in \<open>simp_all add: payment_bytes_def\<close>)
  have s3: "Payment_refundTo_loop (Suc fuel) ?raw (length ?P1 + length ?P2) (refundTo this)
      = (Return (refundTo this @ refundTo p), length ?P1 + length ?P2 + length ?P3)"
    by (rule refundTo_loop_bytes [OF vo, of _ "?P1 @ ?P2" ?P4 _ _ "if pay_memo p = None then - 1 else 4"])
       (use e4 in \<open>simp_all add: payment_bytes_def\<close>)
  have s4: "readFieldString (Suc fuel) ?raw (length ?P1 + length ?P2 + length ?P3) 4 True
      = (Return (pay_memo p), length ?P1 + length ?P2 + length ?P3 + length ?P4)"
    by (rule readFieldString_opt [OF small_tags(4) vm, of "[]" _ "?P1 @ ?P2 @ ?P3"])
       (simp_all add: payment_bytes_def starts_from_Nil)
  have r: "\<lparr>pay_merchantData = pay_merchantData p,
            transactions = transactions this @ transactions p,
            refundTo = refundTo this @ refundTo p, pay_memo = pay_memo p\<rparr>
      = p\<lparr>transactions := transactions this @ transactions p,
           refundTo := refundTo this @ refundTo p\<rparr>"
    by (cases p) simp
  show ?thesis
    unfolding Payment_fromRaw_def
    by (simp add: s1 s2 s3 s4 bind_r_def r)
qed

lemma PaymentACK_toRaw_bytes:
  assumes "valid_ack a"
  shows "PaymentACK_toRaw a = Return (ack_bytes a)"
proof -
  have p: "Payment_toRaw (payment a) = Return (payment_bytes (payment a))"
    using assms by (intro Payment_toRaw_bytes) (simp add: valid_ack_def)
  have f: "writeFieldBytes 1 (payment_bytes (payment a)) []
      = Return ([] @ dfield 1 (payment_bytes (payment a)))"
    using assms by (intro writeFieldBytes_bytes small_tags) (simp add: valid_ack_def)
  have s: "(case ack_memo a of None \<Rightarrow> Return bw | Some x \<Rightarrow> writeFieldString 2 x bw)
      = Return (bw @ opt_s 2 (ack_memo a))" for bw
    using assms by (intro write_opt_s small_tags) (simp add: valid_ack_def)
  show ?thesis
    unfolding PaymentACK_toRaw_def
    by (simp only: p f s bind_o_def outcome.case render_def ack_bytes_def append_Nil append_assoc)
qed

lemma PaymentACK_fromRaw_bytes:
  assumes "valid_ack a"
  shows "PaymentACK_fromRaw (Suc fuel) this (ack_bytes a)
         = Return (a\<lparr>payment := (payment a)
              \<lparr>transactions := transactions (payment this) @ transactions (payment a),
               refundTo := refundTo (payment this) @ refundTo (payment a)\<rparr>\<rparr>)"
proof -
  let ?D = "payment_bytes (payment a)"
  let ?P1 = "dfield 1 ?D"
  let ?P2 = "opt_s 2 (ack_memo a)"
  have vp: "valid_payment (payment a)" and ld: "length ?D < 2 ^ 32"
    and vm: "\<forall>s. ack_memo a = Some s \<longrightarrow> length s < 2 ^ 32"
    using assms by (simp_all add: valid_ack_def)
  have s1: "readFieldBytes (Suc fuel) (ack_bytes a) 0 1 False = (Return (Some ?D), 0 + length ?P1)"
    by (rule readFieldBytes_dfield [OF small_tags(1) ld, of _ "[]" ?P2])
       (simp_all add: ack_bytes_def)
  have s2: "readFieldString (Suc fuel) (ack_bytes a) (length ?P1) 2 True
      = (Return (ack_memo a), length ?P1 + length ?P2)"
    by (rule readFieldString_opt [OF small_tags(2) vm, of "[]" _ ?P1])
       (simp_all add: ack_bytes_def starts_from_Nil)
  have dd: "Payment_fromRaw (Suc fuel) (payment this) ?D
      = Return ((payment a)
          \<lparr>transactions := transactions (payment this) @ transactions (payment a),
           refundTo := refundTo (payment this) @ refundTo (payment a)\<rparr>)"
    by (rule Payment_fromRaw_bytes [OF vp])
  have e: "\<lparr>payment = x, ack_memo = ack_memo a\<rparr> = a\<lparr>payment := x\<rparr>" for x
    by (cases a) simp
  show ?thesis
    unfolding PaymentACK_fromRaw_def
    by (simp add: s1 s2 dd bind_r_def e)
qed

lemma valid_example_payment: "valid_payment example_payment"
  by (simp add: valid_payment_def valid_tx_def valid_output_def example_payment_def)

lemma example_payment_bytes:
  "payment_bytes example_payment
   = [0x0a, 0x01, 0x01, 0x12, 0x02, 0x02, 0x03, 0x12, 0x00, 0x1a, 0x05, 0x08, 0x05, 0x12, 0x01,
      0x09, 0x22, 0x02, 0x68, 0x69]"
  by (simp add: payment_bytes_def example_payment_def opt_s_def opt_d_def txs_bytes_def
        tx_bytes_def outs_bytes_def out_bytes_def dfield_def vfield_def hdr_def from_utf8_def
        encode_groups_small)

lemma valid_example_ack: "valid_ack example_ack"
  by (simp add: valid_ack_def example_ack_def valid_example_payment example_payment_bytes)

text \<open>
  Encoding a \<open>Payment\<close> whose buffers and strings are shorter than \<open>2^32\<close> bytes and
  whose refund outputs are within the bounds above succeeds, and decoding the bytes on a
  new object gives the same value back.
\<close>

theorem Payment_roundtrip:
  "valid_payment p \<longrightarrow>
     (\<exists>raw. Payment_toRaw p = Return raw \<and> Payment_fromRaw_static (Suc fuel) raw = Return p)"
proof
  assume v: "valid_payment p"
  have "Payment_fromRaw_static (Suc fuel) (payment_bytes p) = Return p"
    using Payment_fromRaw_bytes [OF v, of fuel new_Payment]
    by (simp add: Payment_fromRaw_static_def new_Payment_def)
  with Payment_toRaw_bytes [OF v]
  show "\<exists>raw. Payment_toRaw p = Return raw \<and> Payment_fromRaw_static (Suc fuel) raw = Return p"
    by blast
qed

theorem Payment_roundtrip_witness:
  "\<exists>raw. Payment_toRaw example_payment = Return raw \<and>
         Payment_fromRaw_static (Suc 0) raw = Return example_payment"
  by (rule Payment_roundtrip [THEN mp, OF valid_example_payment])

text \<open>The same for a \<open>PaymentACK\<close> whose payment serializes to fewer than \<open>2^32\<close> bytes.\<close>

theorem PaymentACK_roundtrip:
  "valid_ack a \<longrightarrow>
     (\<exists>raw. PaymentACK_toRaw a = Return raw \<and>
            PaymentACK_fromRaw_static (Suc fuel) raw = Return a)"
proof
  assume v: "valid_ack a"
  have "PaymentACK_fromRaw_static (Suc fuel) (ack_bytes a) = Return a"
    using PaymentACK_fromRaw_bytes [OF v, of fuel new_PaymentACK]
    by (simp add: PaymentACK_fromRaw_static_def new_PaymentACK_def new_Payment_def)
  with PaymentACK_toRaw_bytes [OF v]
  show "\<exists>raw. PaymentACK_toRaw a = Return raw \<and>
            PaymentACK_fromRaw_static (Suc fuel) raw = Return a"
    by blast
qed

theorem PaymentACK_roundtrip_witness:
  "\<exists>raw. PaymentACK_toRaw example_ack = Return raw \<and>
         PaymentACK_fromRaw_static (Suc 0) raw = Return example_ack"
  by (rule PaymentACK_roundtrip [THEN mp, OF valid_example_ack])

end
